theory Spec2Isabelle
  imports Main
begin

section \<open>JExTile: the navigation-and-editing engine of \<^verbatim>\<open>App.tsx\<close> and \<^verbatim>\<open>JsonGrid\<close>\<close>

text \<open>
  A shallow embedding of the document editor: the undo/redo history of \<^verbatim>\<open>App\<close>, and the
  path resolver, itemizer, reorder, delete, drag and selection handlers of \<^verbatim>\<open>JsonGrid\<close>.
  React state is a record that every handler takes and returns; a handler that throws
  returns the exception as a value and leaves the state as it was.
\<close>

subsection \<open>Values\<close>

text \<open>
  A JavaScript value as the editor sees it: the JSON values, and \<open>JUndefined\<close> for
  \<^verbatim>\<open>undefined\<close> (what reading a missing entry gives, and a hole of an array). The payload
  of a number plays no role in any handler but its truthiness; it is an integer here.
  An object is its list of own entries in property order.
\<close>

datatype json =
    JUndefined
  | JNull
  | JBool bool
  | JNum int
  | JStr string
  | JArr "json list"
  | JObj "(string \<times> json) list"

text \<open>JavaScript truthiness, as used by \<^verbatim>\<open>!curr.present\<close> and \<^verbatim>\<open>current && ...\<close>.\<close>

fun truthy :: "json \<Rightarrow> bool" where
  "truthy JUndefined = False"
| "truthy JNull = False"
| "truthy (JBool b) = b"
| "truthy (JNum n) = (n \<noteq> 0)"
| "truthy (JStr s) = (s \<noteq> [])"
| "truthy (JArr xs) = True"
| "truthy (JObj kvs) = True"

text \<open>\<^verbatim>\<open>Array.isArray(v)\<close>, and \<^verbatim>\<open>typeof v === 'object' && v !== null\<close> (true of arrays too).\<close>

fun isArray :: "json \<Rightarrow> bool" where
  "isArray (JArr xs) = True"
| "isArray v = False"

fun isObjectLike :: "json \<Rightarrow> bool" where
  "isObjectLike (JArr xs) = True"
| "isObjectLike (JObj kvs) = True"
| "isObjectLike v = False"

subsection \<open>History (\<^verbatim>\<open>App.tsx\<close>, lines 12 to 157)\<close>

text \<open>
  \<^verbatim>\<open>present\<close> is \<^verbatim>\<open>JsonObject[] | null\<close> in the source; the types are erased at run time, so it
  is a \<open>json\<close> here and \<open>JNull\<close> is \<^verbatim>\<open>null\<close>.
\<close>

record history =
  past :: "json list"
  present :: json
  future :: "json list"

definition MAX_HISTORY :: nat where
  "MAX_HISTORY = 50"

definition emptyHistory :: history where
  "emptyHistory = \<lparr>past = [], present = JNull, future = []\<rparr>"

text \<open>\<^verbatim>\<open>handleDataUpdate\<close>: the push. \<^verbatim>\<open>newPast.shift()\<close> drops the first entry.\<close>

definition handleDataUpdate :: "json \<Rightarrow> history \<Rightarrow> history" where
  "handleDataUpdate newData cur =
     (if \<not> truthy (present cur) then cur
      else
        let newPast = past cur @ [present cur];
            newPast' = (if length newPast > MAX_HISTORY then tl newPast else newPast)
        in \<lparr>past = newPast', present = newData, future = []\<rparr>)"

definition undo :: "history \<Rightarrow> history" where
  "undo cur =
     (if length (past cur) = 0 then cur
      else
        let previous = last (past cur);
            newPast = butlast (past cur)
        in \<lparr>past = newPast, present = previous, future = present cur # future cur\<rparr>)"

definition redo :: "history \<Rightarrow> history" where
  "redo cur =
     (if length (future cur) = 0 then cur
      else
        let next = hd (future cur);
            newFuture = tl (future cur)
        in \<lparr>past = past cur @ [present cur], present = next, future = newFuture\<rparr>)"

subsection \<open>Loading (\<^verbatim>\<open>processJsonData\<close>, \<^verbatim>\<open>handleReset\<close>)\<close>

record app_state =
  meta :: "(string \<times> nat) option"
  hist :: history
  error :: "string option"

definition initialApp :: app_state where
  "initialApp = \<lparr>meta = None, hist = emptyHistory, error = None\<rparr>"

definition noListError :: string where
  "noListError = ''The JSON file does not contain a valid list of objects to display.''"

text \<open>
  \<^verbatim>\<open>Object.values(json).find(val => Array.isArray(val) && val.length > 0 && typeof val[0] === 'object')\<close>:
  \<^verbatim>\<open>typeof null\<close> is \<^verbatim>\<open>'object'\<close> as well.
\<close>

fun typeofObject :: "json \<Rightarrow> bool" where
  "typeofObject JNull = True"
| "typeofObject (JArr xs) = True"
| "typeofObject (JObj kvs) = True"
| "typeofObject v = False"

fun isPossibleArray :: "json \<Rightarrow> bool" where
  "isPossibleArray (JArr (x # xs)) = typeofObject x"
| "isPossibleArray v = False"

definition dataToDisplay :: "json \<Rightarrow> json list" where
  "dataToDisplay json =
     (case json of
        JArr xs \<Rightarrow> filter isObjectLike xs
      | JObj kvs \<Rightarrow>
          (case find isPossibleArray (map snd kvs) of
             Some (JArr ys) \<Rightarrow> ys
           | _ \<Rightarrow> [json])
      | _ \<Rightarrow> [])"

definition processJsonData :: "json \<Rightarrow> string \<Rightarrow> nat \<Rightarrow> app_state \<Rightarrow> app_state" where
  "processJsonData json name fsize st =
     (let d = dataToDisplay json in
      if length d = 0 then st\<lparr>error := Some noListError\<rparr>
      else st\<lparr>meta := Some (name, fsize),
              hist := \<lparr>past = [], present = JArr d, future = []\<rparr>,
              error := None\<rparr>)"

definition handleReset :: "app_state \<Rightarrow> app_state" where
  "handleReset st = st\<lparr>meta := None, hist := emptyHistory, error := None\<rparr>"

text \<open>The events that change the history, and the states they reach from the initial one.\<close>

datatype app_event =
    Load json string nat
  | Reset
  | Update json
  | Undo
  | Redo

fun app_step :: "app_state \<Rightarrow> app_event \<Rightarrow> app_state" where
  "app_step st (Load json name fsize) = processJsonData json name fsize st"
| "app_step st Reset = handleReset st"
| "app_step st (Update newData) = st\<lparr>hist := handleDataUpdate newData (hist st)\<rparr>"
| "app_step st Undo = st\<lparr>hist := undo (hist st)\<rparr>"
| "app_step st Redo = st\<lparr>hist := redo (hist st)\<rparr>"

definition app_run :: "app_event list \<Rightarrow> app_state" where
  "app_run evs = foldl app_step initialApp evs"

subsection \<open>Property keys\<close>

text \<open>
  A path segment or an item name: \<^verbatim>\<open>string | number\<close>. The numbers are array indices.
\<close>

datatype seg = SKey string | SIdx nat

text \<open>\<^verbatim>\<open>String(n)\<close> of a natural number: its decimal digits.\<close>

definition digit_char :: "nat \<Rightarrow> char" where
  "digit_char d = char_of (48 + d)"

function string_of_nat :: "nat \<Rightarrow> string" where
  "string_of_nat n =
     (if n < 10 then [digit_char n] else string_of_nat (n div 10) @ [digit_char (n mod 10)])"
  by pat_completeness auto
termination
  by (relation "measure id") auto

declare string_of_nat.simps [simp del]

text \<open>The property key a segment denotes: \<^verbatim>\<open>obj[head]\<close> converts a number to its string.\<close>

fun String :: "seg \<Rightarrow> string" where
  "String (SKey k) = k"
| "String (SIdx i) = string_of_nat i"

text \<open>
  An array index in the sense of ECMAScript: a canonical numeric string (digits, no
  leading zero) whose value is below \<open>2^32 - 1\<close>. Such keys address the elements of an
  array, and an object enumerates them first, in ascending numeric order.
\<close>

definition is_digit :: "char \<Rightarrow> bool" where
  "is_digit c = (48 \<le> (of_char c :: nat) \<and> (of_char c :: nat) \<le> 57)"

definition digits_value :: "string \<Rightarrow> int" where
  "digits_value k = foldl (\<lambda>a c. 10 * a + (of_char c - 48)) 0 k"

definition arrayIndex :: "string \<Rightarrow> nat option" where
  "arrayIndex k =
     (if k \<noteq> [] \<and> list_all is_digit k \<and> (k = ''0'' \<or> hd k \<noteq> CHR ''0'')
         \<and> digits_value k < 4294967295
      then Some (nat (digits_value k)) else None)"

subsection \<open>Reading and writing one entry\<close>

text \<open>
  \<^verbatim>\<open>obj[head]\<close> on an array or an object. Inherited properties (the methods of
  \<^verbatim>\<open>Object.prototype\<close> and \<^verbatim>\<open>Array.prototype\<close>) are not modelled: a key that is not an own
  entry reads as \<^verbatim>\<open>undefined\<close>. A number or a boolean has no own entries. A string is
  never read here: \<open>getPath\<close> guards by \<^verbatim>\<open>typeof\<close>, and \<open>setDeep\<close> leaves a non-empty string
  outside the model.
\<close>

definition arr_get :: "json list \<Rightarrow> nat \<Rightarrow> json" where
  "arr_get xs i = (if i < length xs then xs ! i else JUndefined)"

fun js_get :: "json \<Rightarrow> seg \<Rightarrow> json" where
  "js_get (JArr xs) (SIdx i) = arr_get xs i"
| "js_get (JArr xs) (SKey k) =
     (case arrayIndex k of
        Some i \<Rightarrow> arr_get xs i
      | None \<Rightarrow> if k = ''length'' then JNum (int (length xs)) else JUndefined)"
| "js_get (JObj kvs) s =
     (case map_of kvs (String s) of Some v \<Rightarrow> v | None \<Rightarrow> JUndefined)"
| "js_get v s = JUndefined"

text \<open>
  \<^verbatim>\<open>copy[i] = v\<close> on an array: inside the array the element is replaced, past its end
  JavaScript extends the array and the positions in between are holes. A hole reads as
  \<^verbatim>\<open>undefined\<close>; the model does not tell a hole from an element that is \<^verbatim>\<open>undefined\<close>
  (neither occurs in a document parsed from JSON). \<open>hole\<close> is the value \<^verbatim>\<open>undefined\<close>.
\<close>

definition arr_set :: "'a \<Rightarrow> 'a list \<Rightarrow> nat \<Rightarrow> 'a \<Rightarrow> 'a list" where
  "arr_set hole xs i v =
     (if i < length xs then xs[i := v]
      else xs @ replicate (i - length xs) hole @ [v])"

text \<open>
  \<^verbatim>\<open>copy[k] = v\<close> on an object that is a literal or a spread (\<^verbatim>\<open>{}\<close>, \<^verbatim>\<open>{ ...obj }\<close>), so that
  its prototype is \<^verbatim>\<open>Object.prototype\<close>. The key \<^verbatim>\<open>__proto__\<close> is the one accessor inherited
  from there: while it is not an own entry (\<^verbatim>\<open>JSON.parse\<close> and a spread do create it as an
  own entry), the assignment calls the inherited setter and creates no entry.
\<close>

definition proto_setter :: "(string \<times> 'a) list \<Rightarrow> string \<Rightarrow> bool" where
  "proto_setter kvs k = (k = ''__proto__'' \<and> k \<notin> set (map fst kvs))"

text \<open>
  The own entries after the assignment: an own entry keeps its place; the setter of
  \<^verbatim>\<open>__proto__\<close> leaves the entries as they are; a new key that is an array index goes among
  the index keys in numeric order; any other new key goes last.
\<close>

definition index_before :: "nat \<Rightarrow> string \<times> 'a \<Rightarrow> bool" where
  "index_before i kv = (case arrayIndex (fst kv) of Some j \<Rightarrow> j < i | None \<Rightarrow> False)"

fun replace_entry :: "(string \<times> 'a) list \<Rightarrow> string \<Rightarrow> 'a \<Rightarrow> (string \<times> 'a) list" where
  "replace_entry [] k v = []"
| "replace_entry (kv # kvs) k v =
     (if fst kv = k then (k, v) # kvs else kv # replace_entry kvs k v)"

definition obj_set :: "(string \<times> 'a) list \<Rightarrow> string \<Rightarrow> 'a \<Rightarrow> (string \<times> 'a) list" where
  "obj_set kvs k v =
     (if k \<in> set (map fst kvs) then replace_entry kvs k v
      else if proto_setter kvs k then kvs
      else
        (case arrayIndex k of
           Some i \<Rightarrow> takeWhile (index_before i) kvs @ [(k, v)] @ dropWhile (index_before i) kvs
         | None \<Rightarrow> kvs @ [(k, v)]))"

text \<open>\<^verbatim>\<open>delete newObj[k]\<close>.\<close>

definition obj_delete :: "(string \<times> json) list \<Rightarrow> string \<Rightarrow> (string \<times> json) list" where
  "obj_delete kvs k = filter (\<lambda>kv. fst kv \<noteq> k) kvs"

subsection \<open>Path resolver (\<^verbatim>\<open>currentLevelData\<close>, \<^verbatim>\<open>setDeep\<close>)\<close>

text \<open>
  The loop of \<^verbatim>\<open>currentLevelData\<close>: \<^verbatim>\<open>null\<close> as soon as the value walked into is not an
  object or an array.
\<close>

fun getPath :: "json \<Rightarrow> seg list \<Rightarrow> json" where
  "getPath current [] = current"
| "getPath current (key # keys) =
     (if truthy current \<and> typeofObject current then getPath (js_get current key) keys
      else JNull)"

text \<open>
  \<^verbatim>\<open>copy[head] = r\<close> where \<^verbatim>\<open>copy\<close> clones \<^verbatim>\<open>obj\<close>: \<^verbatim>\<open>[...obj]\<close> for an array, \<^verbatim>\<open>{...obj}\<close>
  otherwise (no entries for \<^verbatim>\<open>undefined\<close>, \<^verbatim>\<open>null\<close>, a number, a boolean or the empty
  string). The result is \<open>None\<close> where the JavaScript value is not a value of this model:
  an array given a property that is not an element (a key that is no array index; an
  index of \<open>2^32 - 1\<close> or more, which no array reaches, is no array index either), and
  an object whose prototype is replaced: the setter of \<^verbatim>\<open>__proto__\<close> does so when it is given
  an object, an array or \<^verbatim>\<open>null\<close> (\<^verbatim>\<open>typeof r === 'object'\<close>), and does nothing when given
  anything else. No exception is thrown there.
\<close>

fun assign_copy :: "json \<Rightarrow> seg \<Rightarrow> json \<Rightarrow> json option" where
  "assign_copy (JArr xs) (SIdx i) r =
     (if i < length xs \<or> int i < 4294967295 then Some (JArr (arr_set JUndefined xs i r)) else None)"
| "assign_copy (JArr xs) (SKey k) r =
     (case arrayIndex k of Some i \<Rightarrow> Some (JArr (arr_set JUndefined xs i r)) | None \<Rightarrow> None)"
| "assign_copy (JObj kvs) s r =
     (if proto_setter kvs (String s) \<and> typeofObject r then None
      else Some (JObj (obj_set kvs (String s) r)))"
| "assign_copy v s r =
     (if proto_setter ([] :: (string \<times> json) list) (String s) \<and> typeofObject r then None
      else Some (JObj (obj_set [] (String s) r)))"

text \<open>
  \<^verbatim>\<open>setDeep\<close>. \<^verbatim>\<open>typeof rest[0] === 'number'\<close> chooses what is synthesized for a missing
  entry. The spread of a non-empty string (its characters) is outside the model: \<open>None\<close>.
\<close>

fun setDeep :: "json \<Rightarrow> seg list \<Rightarrow> json \<Rightarrow> json option" where
  "setDeep obj [] v = Some v"
| "setDeep obj (head # rest) v =
     (case obj of
        JStr (c # cs) \<Rightarrow> None
      | _ \<Rightarrow>
          (let nextObj =
                 (if truthy obj \<and> js_get obj head \<noteq> JUndefined then js_get obj head
                  else (case rest of SIdx n # _ \<Rightarrow> JArr [] | _ \<Rightarrow> JObj []))
           in case setDeep nextObj rest v of
                None \<Rightarrow> None
              | Some r \<Rightarrow> assign_copy obj head r))"

subsection \<open>Items (\<^verbatim>\<open>allItems\<close>, \<^verbatim>\<open>filteredData\<close>)\<close>

record item =
  name :: seg
  ival :: json

definition allItems :: "json \<Rightarrow> item list" where
  "allItems cld =
     (if \<not> truthy cld then []
      else
        (case cld of
           JArr xs \<Rightarrow> map (\<lambda>(idx, val). \<lparr>name = SIdx idx, ival = val\<rparr>) (enumerate 0 xs)
         | JObj kvs \<Rightarrow> map (\<lambda>(key, val). \<lparr>name = SKey key, ival = val\<rparr>) kvs
         | _ \<Rightarrow> []))"

text \<open>
  The search filter. What a non-empty term matches (\<^verbatim>\<open>toLowerCase\<close>, \<^verbatim>\<open>includes\<close>,
  \<^verbatim>\<open>JSON.stringify\<close>) is a parameter: \<open>matches term item\<close>.
\<close>

definition filteredData :: "(string \<Rightarrow> item \<Rightarrow> bool) \<Rightarrow> string \<Rightarrow> item list \<Rightarrow> item list" where
  "filteredData matches term items =
     (if term = [] then items else filter (matches term) items)"

subsection \<open>State of \<^verbatim>\<open>JsonGrid\<close>\<close>

text \<open>
  A \<^verbatim>\<open>Set<number>\<close> is the list of its members in insertion order, without repetition.
\<close>

record drag_data =
  sourceIndex :: nat
  indicesToMove :: "nat list"
  itemsSnapshot :: "item list"

text \<open>
  The state of the grid extends the state of the application that renders it:
  \<^verbatim>\<open>file.data\<close> is \<open>present (hist st)\<close> and \<^verbatim>\<open>onUpdate\<close> is \<open>handleDataUpdate\<close>. The two refs
  (\<^verbatim>\<open>dragDataRef\<close>, \<^verbatim>\<open>dropTargetRef\<close>, \<^verbatim>\<open>anchorIndexRef\<close>) are fields like the rest;
  \<open>console\<close> collects what \<^verbatim>\<open>console.error\<close> is given.
\<close>

record grid_state = app_state +
  path :: "seg list"
  searchTerm :: string
  focusedIndex :: "nat option"
  selectedIndices :: "nat list"
  anchorIndexRef :: "nat option"
  draggedIndex :: "nat option"
  dropTargetIndex :: "int option"
  dragDataRef :: "drag_data option"
  dropTargetRef :: "int option"
  console :: "string list"

text \<open>
  What a handler can end with other than a new state: a \<^verbatim>\<open>TypeError\<close> thrown (reading a
  property of \<^verbatim>\<open>undefined\<close>), or a value that is not one of this model (see \<open>assign_copy\<close>).
\<close>

datatype js_error = TypeError | NonJsonValue

definition currentLevelData :: "grid_state \<Rightarrow> json" where
  "currentLevelData st = getPath (present (hist st)) (path st)"

definition currentData :: "(string \<Rightarrow> item \<Rightarrow> bool) \<Rightarrow> grid_state \<Rightarrow> item list" where
  "currentData matches st =
     filteredData matches (searchTerm st) (allItems (currentLevelData st))"

subsection \<open>The selection clamp effect (\<^verbatim>\<open>JsonGrid\<close>, lines 487 to 505)\<close>

definition clampEffect :: "(string \<Rightarrow> item \<Rightarrow> bool) \<Rightarrow> grid_state \<Rightarrow> grid_state" where
  "clampEffect matches st =
     (let n = length (currentData matches st) in
      case focusedIndex st of
        None \<Rightarrow> st
      | Some f \<Rightarrow>
          if n = 0 then st\<lparr>focusedIndex := None, selectedIndices := []\<rparr>
          else if f \<ge> n then
            st\<lparr>focusedIndex := Some (n - 1),
               selectedIndices := filter (\<lambda>i. \<not> i \<ge> n) (selectedIndices st)\<rparr>
          else st)"

subsection \<open>\<^verbatim>\<open>updateDataAtCurrentPath\<close>\<close>

definition rootError :: string where
  "rootError = ''Root update failed validation: must be an array.''"

definition updateDataAtCurrentPath :: "json \<Rightarrow> grid_state \<Rightarrow> js_error + grid_state" where
  "updateDataAtCurrentPath newData st =
     (case setDeep (present (hist st)) (path st) newData of
        None \<Rightarrow> Inl NonJsonValue
      | Some newRoot \<Rightarrow>
          if length (path st) = 0 \<and> \<not> isArray newRoot
          then Inr (st\<lparr>console := console st @ [rootError]\<rparr>)
          else Inr (st\<lparr>hist := handleDataUpdate newRoot (hist st)\<rparr>))"

subsection \<open>Reorder (\<^verbatim>\<open>moveItemsDirect\<close>, \<^verbatim>\<open>onDragEnd\<close>)\<close>

text \<open>\<^verbatim>\<open>items[i]\<close>: \<^verbatim>\<open>undefined\<close> (\<open>None\<close>) past the end.\<close>

definition item_at :: "item list \<Rightarrow> nat \<Rightarrow> item option" where
  "item_at items i = (if i < length items then Some (items ! i) else None)"

text \<open>\<^verbatim>\<open>items.filter((_, i) => !indices.has(i))\<close>.\<close>

definition filter_not_in :: "nat list \<Rightarrow> 'a list \<Rightarrow> 'a list" where
  "filter_not_in indices xs =
     map snd (filter (\<lambda>(i, x). i \<notin> set indices) (enumerate 0 xs))"

text \<open>
  \<^verbatim>\<open>xs.splice(start, 0, ...ys)\<close>: a negative start counts from the end, a start past the
  end is the end.
\<close>

definition splice_insert :: "'a list \<Rightarrow> int \<Rightarrow> 'a list \<Rightarrow> 'a list" where
  "splice_insert xs start ys =
     (let n = int (length xs);
          s = (if start < 0 then max (n + start) 0 else min start n)
      in take (nat s) xs @ ys @ drop (nat s) xs)"

text \<open>
  \<^verbatim>\<open>newItems.map(i => i.value)\<close> throws a \<^verbatim>\<open>TypeError\<close> on an item that is \<^verbatim>\<open>undefined\<close>
  (\<open>None\<close> is the exception).
\<close>

fun item_values :: "item option list \<Rightarrow> json list option" where
  "item_values [] = Some []"
| "item_values (None # rest) = None"
| "item_values (Some i # rest) = map_option ((#) (ival i)) (item_values rest)"

text \<open>
  \<^verbatim>\<open>newItems.forEach(item => { newObj[item.name as string] = item.value; })\<close> on
  \<^verbatim>\<open>newObj = {}\<close>. An item that is \<^verbatim>\<open>undefined\<close> throws a \<^verbatim>\<open>TypeError\<close>, wherever it stands
  in the list. An item named \<^verbatim>\<open>__proto__\<close> goes to the inherited setter (see \<open>assign_copy\<close>):
  it leaves no entry, and where its value replaces the prototype the object built is
  not a value of this model.
\<close>

fun rebuild_object ::
  "item option list \<Rightarrow> (string \<times> json) list \<Rightarrow> js_error + (string \<times> json) list" where
  "rebuild_object [] newObj = Inr newObj"
| "rebuild_object (None # rest) newObj = Inl TypeError"
| "rebuild_object (Some i # rest) newObj =
     (if proto_setter newObj (String (name i)) \<and> typeofObject (ival i)
      then (if None \<in> set rest then Inl TypeError else Inl NonJsonValue)
      else rebuild_object rest (obj_set newObj (String (name i)) (ival i)))"

definition moveItemsDirect :: "nat list \<Rightarrow> int \<Rightarrow> grid_state \<Rightarrow> js_error + grid_state" where
  "moveItemsDirect indicesToMove' targetIndex st =
     (if searchTerm st \<noteq> [] then Inr st
      else
        let indices = sort indicesToMove' in
        if length indices = 0 then Inr st
        else
          let itemsToMove = map (item_at (allItems (currentLevelData st))) indices;
              itemsToStay =
                map Some (filter_not_in indicesToMove' (allItems (currentLevelData st)));
              numSelectedBeforeTarget = length (filter (\<lambda>i. int i < targetIndex) indices);
              insertionIndex0 = targetIndex - int numSelectedBeforeTarget;
              insertionIndex1 = (if insertionIndex0 < 0 then 0 else insertionIndex0);
              insertionIndex =
                (if insertionIndex1 > int (length itemsToStay) then int (length itemsToStay)
                 else insertionIndex1);
              newItems = splice_insert itemsToStay insertionIndex itemsToMove;
              newData =
                (if isArray (currentLevelData st)
                 then (case item_values newItems of
                         None \<Rightarrow> Inl TypeError
                       | Some vs \<Rightarrow> Inr (JArr vs))
                 else map_sum id JObj (rebuild_object newItems []))
          in case newData of
               Inl e \<Rightarrow> Inl e
             | Inr d \<Rightarrow>
                 (case updateDataAtCurrentPath d st of
                    Inl e \<Rightarrow> Inl e
                  | Inr st' \<Rightarrow>
                      Inr (st'\<lparr>selectedIndices :=
                                 map (\<lambda>i. nat insertionIndex + i) [0..<length itemsToMove],
                               focusedIndex := Some (nat insertionIndex),
                               anchorIndexRef := Some (nat insertionIndex)\<rparr>)))"

definition handleMoveItems :: "int \<Rightarrow> grid_state \<Rightarrow> js_error + grid_state" where
  "handleMoveItems targetIndex st = moveItemsDirect (selectedIndices st) targetIndex st"

text \<open>
  \<^verbatim>\<open>onDragEnd\<close> repeats the computation on the snapshot of the drag context; the container
  kind and the update still come from the live state. An exception leaves the cleanup
  undone.
\<close>

definition onDragEnd :: "grid_state \<Rightarrow> js_error + grid_state" where
  "onDragEnd st =
     (let cleanup = (\<lambda>s. s\<lparr>draggedIndex := None, dropTargetIndex := None,
                             dragDataRef := None, dropTargetRef := None\<rparr>)
      in case (dragDataRef st, dropTargetRef st) of
           (Some dragData, Some targetIndex) \<Rightarrow>
             if searchTerm st \<noteq> [] then Inr (cleanup st)
             else
               let indices = sort (indicesToMove dragData) in
               if length indices > 0 then
                 let itemsToMove = map (item_at (itemsSnapshot dragData)) indices;
                     itemsToStay =
                       map Some (filter_not_in (indicesToMove dragData) (itemsSnapshot dragData));
                     numSelectedBeforeTarget =
                       length (filter (\<lambda>i. int i < targetIndex) indices);
                     insertionIndex0 = targetIndex - int numSelectedBeforeTarget;
                     insertionIndex1 = (if insertionIndex0 < 0 then 0 else insertionIndex0);
                     insertionIndex =
                       (if insertionIndex1 > int (length itemsToStay)
                        then int (length itemsToStay) else insertionIndex1);
                     newItems = splice_insert itemsToStay insertionIndex itemsToMove;
                     newData =
                       (if isArray (currentLevelData st)
                        then (case item_values newItems of
                                None \<Rightarrow> Inl TypeError
                              | Some vs \<Rightarrow> Inr (JArr vs))
                        else map_sum id JObj (rebuild_object newItems []))
                 in case newData of
                      Inl e \<Rightarrow> Inl e
                    | Inr d \<Rightarrow>
                        (case updateDataAtCurrentPath d st of
                           Inl e \<Rightarrow> Inl e
                         | Inr st' \<Rightarrow>
                             Inr (cleanup
                               (st'\<lparr>selectedIndices :=
                                       map (\<lambda>i. nat insertionIndex + i)
                                         [0..<length itemsToMove],
                                     focusedIndex := Some (nat insertionIndex),
                                     anchorIndexRef := Some (nat insertionIndex)\<rparr>)))
               else Inr (cleanup st)
         | _ \<Rightarrow> Inr (cleanup st))"

text \<open>
  \<^verbatim>\<open>onDragStart\<close> and \<^verbatim>\<open>onDragOver\<close>. The state updates that \<^verbatim>\<open>onDragStart\<close> defers to the
  next animation frame are applied at once; \<open>isAfter\<close> is whether the pointer is past the
  horizontal midpoint of the card.
\<close>

definition onDragStart :: "nat \<Rightarrow> grid_state \<Rightarrow> grid_state" where
  "onDragStart index st =
     (if searchTerm st \<noteq> [] then st
      else
        let st1 = st\<lparr>dragDataRef :=
                       Some \<lparr>sourceIndex = index,
                             indicesToMove =
                               (if index \<in> set (selectedIndices st) then selectedIndices st
                                else [index]),
                             itemsSnapshot = allItems (currentLevelData st)\<rparr>,
                     dropTargetRef := None\<rparr>;
            st2 = (if index \<notin> set (selectedIndices st)
                   then st1\<lparr>selectedIndices := [index], focusedIndex := Some index,
                            anchorIndexRef := Some index\<rparr>
                   else st1)
        in st2\<lparr>draggedIndex := Some index\<rparr>)"

definition onDragOver :: "bool \<Rightarrow> nat \<Rightarrow> grid_state \<Rightarrow> grid_state" where
  "onDragOver isAfter index st =
     (let newTarget = (if isAfter then int index + 1 else int index)
      in st\<lparr>dropTargetIndex := Some newTarget, dropTargetRef := Some newTarget\<rparr>)"

subsection \<open>Delete (\<^verbatim>\<open>handleDelete\<close>)\<close>

text \<open>\<^verbatim>\<open>newArray.splice(idx, 1)\<close>.\<close>

definition splice_remove :: "'a list \<Rightarrow> nat \<Rightarrow> 'a list" where
  "splice_remove xs idx = take idx xs @ drop (Suc idx) xs"

text \<open>
  \<^verbatim>\<open>Number(item.name)\<close> for the items of an array, whose names are indices. (A string name
  would give \<^verbatim>\<open>NaN\<close>, which the range check of the loop skips; it is left out here.)
\<close>

fun name_numbers :: "item list \<Rightarrow> nat list" where
  "name_numbers [] = []"
| "name_numbers (i # rest) =
     (case name i of SIdx n \<Rightarrow> n # name_numbers rest | SKey k \<Rightarrow> name_numbers rest)"

text \<open>\<^verbatim>\<open>{ ...currentLevelData }\<close>: the own entries of an object.\<close>

fun spread_object :: "json \<Rightarrow> (string \<times> json) list" where
  "spread_object (JObj kvs) = kvs"
| "spread_object v = []"

text \<open>\<^verbatim>\<open>Math.min(...xs)\<close> and \<^verbatim>\<open>Math.max(...xs)\<close> of a non-empty list.\<close>

definition math_min :: "nat list \<Rightarrow> nat" where
  "math_min xs = fold min (tl xs) (hd xs)"

definition math_max :: "nat list \<Rightarrow> nat" where
  "math_max xs = fold max (tl xs) (hd xs)"

text \<open>
  The indices a delete is about: the selection when the trash button of a selected card
  is clicked, that card alone when it is not selected; without a card, the selection if
  there is one, else the focused card, else nothing.
\<close>

definition chosenIndices :: "nat option \<Rightarrow> grid_state \<Rightarrow> nat list" where
  "chosenIndices targetIndex st =
     (case targetIndex of
        Some t \<Rightarrow> if t \<in> set (selectedIndices st) then selectedIndices st else [t]
      | None \<Rightarrow>
          if length (selectedIndices st) > 0 then selectedIndices st
          else (case focusedIndex st of Some f \<Rightarrow> [f] | None \<Rightarrow> []))"

text \<open>\<^verbatim>\<open>.filter(i => currentData[i])\<close>: the indices that have an item.\<close>

definition validIndices :: "item list \<Rightarrow> nat list \<Rightarrow> nat list" where
  "validIndices items indices = filter (\<lambda>i. i < length items) indices"

definition handleDelete ::
  "(string \<Rightarrow> item \<Rightarrow> bool) \<Rightarrow> nat option \<Rightarrow> grid_state \<Rightarrow> js_error + grid_state" where
  "handleDelete matches targetIndex st =
     (if length (chosenIndices targetIndex st) = 0 then Inr st
      else
        let localIndicesToDelete =
              validIndices (currentData matches st) (chosenIndices targetIndex st)
        in if length localIndicesToDelete = 0 then Inr st
           else
             let itemsToDelete = map (\<lambda>i. currentData matches st ! i) localIndicesToDelete;
                 newData =
                   (case currentLevelData st of
                      JArr xs \<Rightarrow>
                        JArr (foldl (\<lambda>newArray idx.
                                       if idx < length newArray then splice_remove newArray idx
                                       else newArray)
                                xs (rev (sort (name_numbers itemsToDelete))))
                    | v \<Rightarrow>
                        JObj (foldl (\<lambda>newObj i. obj_delete newObj (String (name i)))
                                (spread_object v) itemsToDelete))
             in case updateDataAtCurrentPath newData st of
                  Inl e \<Rightarrow> Inl e
                | Inr st' \<Rightarrow>
                    Inr (st'\<lparr>selectedIndices := [],
                             focusedIndex := Some (math_min localIndicesToDelete)\<rparr>))"

subsection \<open>Selection by click (\<^verbatim>\<open>handleCardClick\<close>)\<close>

definition handleCardClick :: "bool \<Rightarrow> bool \<Rightarrow> nat \<Rightarrow> grid_state \<Rightarrow> grid_state" where
  "handleCardClick ctrlOrMeta shiftKey index st =
     (if ctrlOrMeta then
        st\<lparr>selectedIndices :=
              (if index \<in> set (selectedIndices st) then removeAll index (selectedIndices st)
               else selectedIndices st @ [index]),
           focusedIndex := Some index,
           anchorIndexRef := Some index\<rparr>
      else
        (case (shiftKey, anchorIndexRef st) of
           (True, Some a) \<Rightarrow>
             st\<lparr>selectedIndices := [min a index ..< Suc (max a index)],
                focusedIndex := Some index\<rparr>
         | _ \<Rightarrow>
             st\<lparr>selectedIndices := [index], focusedIndex := Some index,
                anchorIndexRef := Some index\<rparr>))"

subsection \<open>Events\<close>

text \<open>
  The user events the properties below run: a click on a card, the Delete key or the
  trash button of a card, undo and redo, and the keyboard move of the selected block
  (Ctrl with an arrow key). After the handler of an event, the component renders and the
  clamp effect runs.
\<close>

datatype grid_event =
    CardClick bool bool nat
  | DeleteKey
  | TrashClick nat
  | UndoKey
  | RedoKey
  | MoveBackward
  | MoveForward

definition keyboardMove :: "(string \<Rightarrow> item \<Rightarrow> bool) \<Rightarrow> bool \<Rightarrow> grid_state \<Rightarrow> js_error + grid_state"
  where
  "keyboardMove matches forward st =
     (if length (currentData matches st) = 0 then Inr st
      else if focusedIndex st \<noteq> None \<and> searchTerm st = [] \<and> length (selectedIndices st) > 0
      then
        (if forward then handleMoveItems (int (math_max (selectedIndices st)) + 2) st
         else handleMoveItems (max 0 (int (math_min (selectedIndices st)) - 1)) st)
      else Inr st)"

fun handle_event :: "(string \<Rightarrow> item \<Rightarrow> bool) \<Rightarrow> grid_state \<Rightarrow> grid_event \<Rightarrow> js_error + grid_state"
  where
  "handle_event matches st (CardClick ctrlOrMeta shiftKey index) =
     Inr (handleCardClick ctrlOrMeta shiftKey index st)"
| "handle_event matches st DeleteKey = handleDelete matches None st"
| "handle_event matches st (TrashClick index) = handleDelete matches (Some index) st"
| "handle_event matches st UndoKey = Inr (st\<lparr>hist := undo (hist st)\<rparr>)"
| "handle_event matches st RedoKey = Inr (st\<lparr>hist := redo (hist st)\<rparr>)"
| "handle_event matches st MoveBackward = keyboardMove matches False st"
| "handle_event matches st MoveForward = keyboardMove matches True st"

definition grid_step :: "(string \<Rightarrow> item \<Rightarrow> bool) \<Rightarrow> grid_state \<Rightarrow> grid_event \<Rightarrow> js_error + grid_state"
  where
  "grid_step matches st ev =
     (case handle_event matches st ev of
        Inl e \<Rightarrow> Inl e
      | Inr st' \<Rightarrow> Inr (clampEffect matches st'))"

fun grid_run :: "(string \<Rightarrow> item \<Rightarrow> bool) \<Rightarrow> grid_state \<Rightarrow> grid_event list \<Rightarrow> js_error + grid_state"
  where
  "grid_run matches st [] = Inr st"
| "grid_run matches st (ev # evs) =
     (case grid_step matches st ev of
        Inl e \<Rightarrow> Inl e
      | Inr st' \<Rightarrow> grid_run matches st' evs)"

text \<open>The grid as it is mounted on a loaded document.\<close>

definition mountGrid :: "app_state \<Rightarrow> grid_state" where
  "mountGrid a =
     \<lparr>meta = meta a, hist = hist a, error = error a,
      path = [], searchTerm = [], focusedIndex = None, selectedIndices = [],
      anchorIndexRef = None, draggedIndex = None, dropTargetIndex = None,
      dragDataRef = None, dropTargetRef = None, console = []\<rparr>"

subsection \<open>Observations and example documents\<close>

text \<open>What a move leaves behind: the history, the selection, the focus and the anchor.\<close>

definition moveOutcome :: "grid_state \<Rightarrow> history \<times> nat list \<times> nat option \<times> nat option" where
  "moveOutcome st = (hist st, selectedIndices st, focusedIndex st, anchorIndexRef st)"

text \<open>
  In the words of the spec (section 3): a Document is an ordered sequence of JSON
  objects.
\<close>

fun isJsonObject :: "json \<Rightarrow> bool" where
  "isJsonObject (JObj kvs) = True"
| "isJsonObject v = False"

fun isDocument :: "json \<Rightarrow> bool" where
  "isDocument (JArr xs) = list_all isJsonObject xs"
| "isDocument v = False"

text \<open>Example documents, loaded and shown in a freshly mounted grid.\<close>

definition doc1 :: json where
  "doc1 = JArr [JObj [(''id'', JNum 1), (''Title'', JStr ''A'')]]"

definition grid1 :: grid_state where
  "grid1 = mountGrid (processJsonData doc1 ''data.json'' 28 initialApp)"

definition doc4 :: json where
  "doc4 = JArr [JObj [(''id'', JNum 1)], JObj [(''id'', JNum 2)],
                JObj [(''id'', JNum 3)], JObj [(''id'', JNum 4)]]"

definition grid4 :: grid_state where
  "grid4 = mountGrid (processJsonData doc4 ''data.json'' 64 initialApp)"

subsection \<open>The reorder in the words of the spec\<close>

text \<open>
  The reorder as the spec words it (section 4.4): \<open>stay\<close> and \<open>move\<close> are the items
  whose index is outside and inside \<open>M\<close>, each in the original order; the target is
  lowered by the number of moved items before it and clamped to \<open>[0, |stay|]\<close>.
\<close>

definition adjustedT :: "nat \<Rightarrow> nat set \<Rightarrow> int \<Rightarrow> nat" where
  "adjustedT nstay M T = nat (max 0 (min (T - int (card {m \<in> M. int m < T})) (int nstay)))"

definition reorder_spec :: "'a list \<Rightarrow> nat set \<Rightarrow> int \<Rightarrow> 'a list" where
  "reorder_spec items M T =
     (let stay = nths items (- M);
          move = nths items M;
          a = adjustedT (length stay) M T
      in take a stay @ move @ drop a stay)"

text \<open>The grid on \<open>doc1\<close>, drilled into its first element (an object).\<close>

definition gridObj :: grid_state where
  "gridObj = grid1\<lparr>path := [SIdx 0]\<rparr>"

text \<open>
  Two documents as \<^verbatim>\<open>JSON.parse\<close> delivers them, \<^verbatim>\<open>[{"1":3,"2":2,"b":1}]\<close> and
  \<^verbatim>\<open>[{"__proto__":5,"b":2}]\<close>, each in a grid drilled into its first element.
\<close>

definition docIndexKeys :: json where
  "docIndexKeys = JArr [JObj [(''1'', JNum 3), (''2'', JNum 2), (''b'', JNum 1)]]"

definition gridIndexKeys :: grid_state where
  "gridIndexKeys =
     (mountGrid (processJsonData docIndexKeys ''data.json'' 23 initialApp))\<lparr>path := [SIdx 0]\<rparr>"

definition docProto :: json where
  "docProto = JArr [JObj [(''__proto__'', JNum 5), (''b'', JNum 2)]]"

definition gridProto :: grid_state where
  "gridProto =
     (mountGrid (processJsonData docProto ''data.json'' 25 initialApp))\<lparr>path := [SIdx 0]\<rparr>"

definition doc3 :: json where
  "doc3 = JArr [JObj [(''id'', JNum 1)], JObj [(''id'', JNum 2)], JObj [(''id'', JNum 3)]]"

definition grid3 :: grid_state where
  "grid3 = mountGrid (processJsonData doc3 ''data.json'' 48 initialApp)"

text \<open>A search filter that matches every item.\<close>

definition anyItem :: "string \<Rightarrow> item \<Rightarrow> bool" where
  "anyItem term i = True"

text \<open>
  The grid on \<open>doc3\<close> after its last element was deleted, with the cards 2 and 0 selected
  (in that order) and the focus on card 0.
\<close>

definition staleSelection :: grid_state where
  "staleSelection =
     grid3\<lparr>hist := \<lparr>past = [doc3],
                     present = JArr [JObj [(''id'', JNum 1)], JObj [(''id'', JNum 2)]],
                     future = []\<rparr>,
           focusedIndex := Some 0, selectedIndices := [2, 0], anchorIndexRef := Some 0\<rparr>"

subsection \<open>Legal paths\<close>

text \<open>
  A path reachable by legal drills, in the words of the claim: each segment indexes an
  existing entry of the container walked into (an index inside an array, an own key of an
  object).
\<close>

fun legalPath :: "json \<Rightarrow> seg list \<Rightarrow> bool" where
  "legalPath v [] = True"
| "legalPath (JArr xs) (SIdx i # rest) = (i < length xs \<and> legalPath (xs ! i) rest)"
| "legalPath (JObj kvs) (SKey k # rest) =
     (case map_of kvs k of Some v \<Rightarrow> legalPath v rest | None \<Rightarrow> False)"
| "legalPath v (s # rest) = False"

subsection \<open>The path resolver on a store\<close>

text \<open>
  Structural sharing is about references, so \<^verbatim>\<open>setDeep\<close> is modelled a second time on an
  explicit store. A run-time value is a primitive or the address of a cell; a cell is
  an array or an object whose entries are run-time values; the store is the list of the
  cells allocated so far, and allocation appends a cell.
\<close>

type_synonym addr = nat

datatype rval =
    RUndefined
  | RNull
  | RBool bool
  | RNum int
  | RStr string
  | RRef addr

datatype cell = CArr "rval list" | CObj "(string \<times> rval) list"

type_synonym store = "cell list"

fun truthyR :: "rval \<Rightarrow> bool" where
  "truthyR RUndefined = False"
| "truthyR RNull = False"
| "truthyR (RBool b) = b"
| "truthyR (RNum n) = (n \<noteq> 0)"
| "truthyR (RStr s) = (s \<noteq> [])"
| "truthyR (RRef a) = True"

fun typeofObjectR :: "rval \<Rightarrow> bool" where
  "typeofObjectR RNull = True"
| "typeofObjectR (RRef a) = True"
| "typeofObjectR v = False"

definition cell_at :: "store \<Rightarrow> addr \<Rightarrow> cell option" where
  "cell_at h a = (if a < length h then Some (h ! a) else None)"

text \<open>\<^verbatim>\<open>obj[head]\<close>, as \<open>js_get\<close>. An address outside the store has no entries.\<close>

definition arr_getR :: "rval list \<Rightarrow> nat \<Rightarrow> rval" where
  "arr_getR xs i = (if i < length xs then xs ! i else RUndefined)"

fun cell_get :: "cell \<Rightarrow> seg \<Rightarrow> rval" where
  "cell_get (CArr xs) (SIdx i) = arr_getR xs i"
| "cell_get (CArr xs) (SKey k) =
     (case arrayIndex k of
        Some i \<Rightarrow> arr_getR xs i
      | None \<Rightarrow> if k = ''length'' then RNum (int (length xs)) else RUndefined)"
| "cell_get (CObj kvs) s =
     (case map_of kvs (String s) of Some v \<Rightarrow> v | None \<Rightarrow> RUndefined)"

fun getR :: "store \<Rightarrow> rval \<Rightarrow> seg \<Rightarrow> rval" where
  "getR h (RRef a) s = (case cell_at h a of Some c \<Rightarrow> cell_get c s | None \<Rightarrow> RUndefined)"
| "getR h v s = RUndefined"

text \<open>The loop of \<^verbatim>\<open>currentLevelData\<close> on the store.\<close>

fun getPathR :: "store \<Rightarrow> rval \<Rightarrow> seg list \<Rightarrow> rval" where
  "getPathR h current [] = current"
| "getPathR h current (key # keys) =
     (if truthyR current \<and> typeofObjectR current then getPathR h (getR h current key) keys
      else RNull)"

text \<open>
  \<^verbatim>\<open>Array.isArray(obj) ? [...obj] : { ...obj }\<close>: the entries of the clone are the entries
  of \<^verbatim>\<open>obj\<close> themselves, so an entry that is an address is shared, not copied.
\<close>

fun cloneR :: "store \<Rightarrow> rval \<Rightarrow> cell" where
  "cloneR h (RRef a) = (case cell_at h a of Some c \<Rightarrow> c | None \<Rightarrow> CObj [])"
| "cloneR h v = CObj []"

text \<open>\<^verbatim>\<open>copy[head] = r\<close>, as \<open>assign_copy\<close>.\<close>

fun assign_cell :: "cell \<Rightarrow> seg \<Rightarrow> rval \<Rightarrow> cell option" where
  "assign_cell (CArr xs) (SIdx i) r =
     (if i < length xs \<or> int i < 4294967295 then Some (CArr (arr_set RUndefined xs i r))
      else None)"
| "assign_cell (CArr xs) (SKey k) r =
     (case arrayIndex k of Some i \<Rightarrow> Some (CArr (arr_set RUndefined xs i r)) | None \<Rightarrow> None)"
| "assign_cell (CObj kvs) s r =
     (if proto_setter kvs (String s) \<and> typeofObjectR r then None
      else Some (CObj (obj_set kvs (String s) r)))"

text \<open>
  \<^verbatim>\<open>setDeep\<close> on the store, in the order of the source: the clone is allocated, then the
  empty array or object synthesized for a missing entry, then the recursive call runs,
  and last the clone (and no other cell) is written.
\<close>

fun setDeepR :: "store \<Rightarrow> rval \<Rightarrow> seg list \<Rightarrow> rval \<Rightarrow> (store \<times> rval) option" where
  "setDeepR h obj [] v = Some (h, v)"
| "setDeepR h obj (head # rest) v =
     (case obj of
        RStr (c # cs) \<Rightarrow> None
      | _ \<Rightarrow>
          (let copy = length h;
               h1 = h @ [cloneR h obj];
               (h2, nextObj) =
                 (if truthyR obj \<and> getR h obj head \<noteq> RUndefined then (h1, getR h obj head)
                  else (h1 @ [case rest of SIdx n # _ \<Rightarrow> CArr [] | _ \<Rightarrow> CObj []],
                        RRef (length h1)))
           in case setDeepR h2 nextObj rest v of
                None \<Rightarrow> None
              | Some (h3, r) \<Rightarrow>
                  (case assign_cell (h3 ! copy) head r of
                     None \<Rightarrow> None
                   | Some c \<Rightarrow> Some (h3[copy := c], RRef copy))))"

text \<open>Legal paths on the store.\<close>

fun legalPathR :: "store \<Rightarrow> rval \<Rightarrow> seg list \<Rightarrow> bool" where
  "legalPathR h v [] = True"
| "legalPathR h (RRef a) (s # rest) =
     (case cell_at h a of
        Some (CArr xs) \<Rightarrow>
          (case s of SIdx i \<Rightarrow> i < length xs \<and> legalPathR h (xs ! i) rest | SKey k \<Rightarrow> False)
      | Some (CObj kvs) \<Rightarrow>
          (case s of
             SKey k \<Rightarrow> (case map_of kvs k of Some v \<Rightarrow> legalPathR h v rest | None \<Rightarrow> False)
           | SIdx i \<Rightarrow> False)
      | None \<Rightarrow> False)"
| "legalPathR h v (s # rest) = False"

text \<open>
  The entries of two cells agree everywhere but at one segment: the same values and,
  where a value is an address, the same address.
\<close>

fun same_but :: "cell \<Rightarrow> cell \<Rightarrow> seg \<Rightarrow> bool" where
  "same_but (CArr xs) (CArr ys) (SIdx i) =
     (length ys = length xs \<and> list_all (\<lambda>j. j = i \<or> ys ! j = xs ! j) [0..<length xs])"
| "same_but (CObj kvs) (CObj kvs') (SKey k) =
     (map fst kvs' = map fst kvs \<and>
      list_all (\<lambda>j. fst (kvs ! j) = k \<or> kvs' ! j = kvs ! j) [0..<length kvs])"
| "same_but c c' s = False"

text \<open>
  Structural sharing along a path: \<open>v\<close> in the store \<open>h\<close> before the update, \<open>v'\<close> in the
  store \<open>h'\<close> after it. At every level of the path the new value is a cell allocated by
  the update, whose entries off the path are the entries of the old cell.
\<close>

fun sharesOffPath :: "store \<Rightarrow> store \<Rightarrow> rval \<Rightarrow> rval \<Rightarrow> seg list \<Rightarrow> bool" where
  "sharesOffPath h h' v v' [] = True"
| "sharesOffPath h h' (RRef a) (RRef b) (s # rest) =
     (a < length h \<and> length h \<le> b \<and> b < length h' \<and>
      same_but (h ! a) (h' ! b) s \<and>
      sharesOffPath h h' (cell_get (h ! a) s) (cell_get (h' ! b) s) rest)"
| "sharesOffPath h h' v v' (s # rest) = False"

text \<open>An example document, and a store that holds it at address 0.\<close>

definition docS :: json where
  "docS = JArr [JObj [(''id'', JNum 1), (''tags'', JArr [JStr ''x''])]]"

definition store0 :: store where
  "store0 = [CArr [RRef 1], CObj [(''id'', RNum 1), (''tags'', RRef 2)], CArr [RStr ''x'']]"

text \<open>
  What a run-time value stands for: \<open>reprF F h x j\<close> says that \<open>x\<close> in the store \<open>h\<close> is the
  value \<open>j\<close>, and that only cells with an address in \<open>F\<close> are read to see it.
\<close>

inductive reprF :: "nat set \<Rightarrow> store \<Rightarrow> rval \<Rightarrow> json \<Rightarrow> bool" for F :: "nat set" and h :: store where
  r_undefined: "reprF F h RUndefined JUndefined"
| r_null: "reprF F h RNull JNull"
| r_bool: "reprF F h (RBool b) (JBool b)"
| r_num: "reprF F h (RNum n) (JNum n)"
| r_str: "reprF F h (RStr s) (JStr s)"
| r_arr: "a \<in> F \<Longrightarrow> a < length h \<Longrightarrow> h ! a = CArr rs \<Longrightarrow> list_all2 (reprF F h) rs js \<Longrightarrow>
          reprF F h (RRef a) (JArr js)"
| r_obj: "a \<in> F \<Longrightarrow> a < length h \<Longrightarrow> h ! a = CObj rkvs \<Longrightarrow>
          list_all2 (\<lambda>rkv jkv. fst rkv = fst jkv \<and> reprF F h (snd rkv) (snd jkv)) rkvs jkvs \<Longrightarrow>
          reprF F h (RRef a) (JObj jkvs)"

definition represents :: "store \<Rightarrow> rval \<Rightarrow> json \<Rightarrow> bool" where
  "represents h x j = reprF {..<length h} h x j"

section \<open>Properties\<close>

subsection \<open>History\<close>

lemma handleDataUpdate_truthy:
  "truthy (present h) \<Longrightarrow>
   handleDataUpdate d h =
     \<lparr>past = (if length (past h) < MAX_HISTORY then past h @ [present h]
              else tl (past h @ [present h])),
      present = d, future = []\<rparr>"
  by (simp add: handleDataUpdate_def Let_def)

lemma undo_handleDataUpdate:
  assumes "truthy (present h)"
  shows "present (undo (handleDataUpdate d h)) = present h"
    and "future (undo (handleDataUpdate d h)) = [d]"
proof -
  let ?np = "past h @ [present h]"
  have ne: "tl ?np \<noteq> [] \<or> \<not> length ?np > MAX_HISTORY"
    by (cases "past h") (simp_all add: MAX_HISTORY_def)
  have l: "last (tl ?np) = present h" if "length ?np > MAX_HISTORY"
    using that by (cases "past h") (simp_all add: MAX_HISTORY_def)
  show "present (undo (handleDataUpdate d h)) = present h"
    using assms ne l by (auto simp: handleDataUpdate_def undo_def Let_def)
  show "future (undo (handleDataUpdate d h)) = [d]"
    using assms ne by (auto simp: handleDataUpdate_def undo_def Let_def)
qed

text \<open>
  C2. From a history whose present is a document \<open>D\<close> (any truthy value: the push does
  nothing while no document is loaded), \<open>undo\<close> after the push of \<open>D'\<close> has present \<open>D\<close>,
  and \<open>redo\<close> after that has present \<open>D'\<close>; \<open>undo\<close> on an empty past and \<open>redo\<close> on an empty
  future return the history unchanged. Snapshots are moved between the three fields and
  never rebuilt, so the value restored is the one that was stored.
\<close>

theorem undo_redo_restore:
  "(truthy (present h) \<longrightarrow>
      present (undo (handleDataUpdate D' h)) = present h \<and>
      present (redo (undo (handleDataUpdate D' h))) = D') \<and>
   (past h = [] \<longrightarrow> undo h = h) \<and>
   (future h = [] \<longrightarrow> redo h = h)"
proof -
  have "present (redo (undo (handleDataUpdate D' h))) = D'" if "truthy (present h)"
    using undo_handleDataUpdate(2)[OF that, of D'] by (simp add: redo_def Let_def)
  then show ?thesis
    using undo_handleDataUpdate(1)[of h D'] by (simp add: undo_def redo_def)
qed

theorem undo_redo_restore_witness:
  "truthy (present \<lparr>past = [], present = JArr [JObj [(''id'', JNum 1)]], future = []\<rparr>) \<and>
   present (undo (handleDataUpdate (JArr [])
      \<lparr>past = [], present = JArr [JObj [(''id'', JNum 1)]], future = []\<rparr>))
     = JArr [JObj [(''id'', JNum 1)]] \<and>
   present (redo (undo (handleDataUpdate (JArr [])
      \<lparr>past = [], present = JArr [JObj [(''id'', JNum 1)]], future = []\<rparr>))) = JArr [] \<and>
   undo \<lparr>past = [], present = JArr [], future = [JNull]\<rparr>
     = \<lparr>past = [], present = JArr [], future = [JNull]\<rparr> \<and>
   redo \<lparr>past = [JNull], present = JArr [], future = []\<rparr>
     = \<lparr>past = [JNull], present = JArr [], future = []\<rparr>"
  using undo_redo_restore
    [of "\<lparr>past = [], present = JArr [JObj [(''id'', JNum 1)]], future = []\<rparr>" "JArr []"]
    undo_redo_restore [of "\<lparr>past = [], present = JArr [], future = [JNull]\<rparr>" JNull]
    undo_redo_restore [of "\<lparr>past = [JNull], present = JArr [], future = []\<rparr>" JNull]
  by simp

lemma app_inv_step:
  assumes "length (past (hist st)) + length (future (hist st)) \<le> MAX_HISTORY"
  shows "length (past (hist (app_step st ev))) + length (future (hist (app_step st ev)))
           \<le> MAX_HISTORY"
proof (cases ev)
  case (Load j n s)
  with assms show ?thesis
    by (simp add: processJsonData_def Let_def)
next
  case Reset
  then show ?thesis by (simp add: handleReset_def emptyHistory_def)
next
  case (Update d)
  with assms show ?thesis
    by (cases "past (hist st)") (auto simp: handleDataUpdate_def Let_def)
next
  case Undo
  with assms show ?thesis
    by (cases "past (hist st)") (auto simp: undo_def Let_def)
next
  case Redo
  with assms show ?thesis
    by (cases "future (hist st)") (auto simp: redo_def Let_def)
qed

lemma app_inv_foldl:
  "length (past (hist st)) + length (future (hist st)) \<le> MAX_HISTORY \<Longrightarrow>
   length (past (hist (foldl app_step st evs))) + length (future (hist (foldl app_step st evs)))
     \<le> MAX_HISTORY"
  by (induction evs arbitrary: st) (simp_all add: app_inv_step)

text \<open>
  C5. In every state reached from the initial one by loads, resets, pushes, undos and
  redos, the past holds at most 50 snapshots (past and future together never exceed
  50, which is what \<open>redo\<close>, appending to the past with no check of its own, relies on).
  A push on a history that holds a document appends the previous present to the past,
  dropping the oldest entry when the past was full, sets the present to the new document
  and clears the future; on a past of 50 the oldest entry is evicted and 50 remain.
\<close>

theorem history_bound:
  "length (past (hist (app_run evs))) \<le> 50 \<and>
   (truthy (present h) \<longrightarrow>
      handleDataUpdate D' h =
        \<lparr>past = (if length (past h) < 50 then past h @ [present h]
                 else tl (past h) @ [present h]),
         present = D', future = []\<rparr>) \<and>
   (truthy (present h) \<and> length (past h) = 50 \<longrightarrow>
      past (handleDataUpdate D' h) = tl (past h) @ [present h] \<and>
      length (past (handleDataUpdate D' h)) = 50)"
proof -
  have "length (past (hist initialApp)) + length (future (hist initialApp)) \<le> MAX_HISTORY"
    by (simp add: initialApp_def emptyHistory_def)
  from app_inv_foldl[OF this, of evs] have 1: "length (past (hist (app_run evs))) \<le> 50"
    by (simp add: app_run_def MAX_HISTORY_def)
  have 2: "tl (past h @ [present h]) = tl (past h) @ [present h]" if "\<not> length (past h) < 50"
    using that by (cases "past h") simp_all
  show ?thesis
    using 1 2 by (auto simp: handleDataUpdate_truthy MAX_HISTORY_def)
qed

theorem history_bound_witness:
  "truthy (present \<lparr>past = replicate 50 (JArr []), present = JArr [JNull], future = [JNull]\<rparr>) \<and>
   length (past \<lparr>past = replicate 50 (JArr []), present = JArr [JNull], future = [JNull]\<rparr>) = 50 \<and>
   handleDataUpdate (JArr [JNull, JNull])
       \<lparr>past = replicate 50 (JArr []), present = JArr [JNull], future = [JNull]\<rparr> =
     \<lparr>past = tl (replicate 50 (JArr [])) @ [JArr [JNull]],
        present = JArr [JNull, JNull], future = []\<rparr> \<and>
   length (past (handleDataUpdate (JArr [JNull, JNull])
       \<lparr>past = replicate 50 (JArr []), present = JArr [JNull], future = [JNull]\<rparr>)) = 50 \<and>
   length (past (hist (app_run [Load (JArr [JObj []]) ''f'' 2, Update (JArr []), Undo, Redo])))
     \<le> 50"
  using history_bound
    [of "[Load (JArr [JObj []]) ''f'' 2, Update (JArr []), Undo, Redo]"
        "\<lparr>past = replicate 50 (JArr []), present = JArr [JNull], future = [JNull]\<rparr>"
        "JArr [JNull, JNull]"]
  by simp

subsection \<open>Loading\<close>

text \<open>
  C10. Loading an array keeps, in order, exactly the elements \<^verbatim>\<open>e\<close> with
  \<^verbatim>\<open>typeof e === 'object' && e !== null\<close> (objects, and arrays too) as the new Document,
  with a fresh history and no error, and drops every other element silently; the load is
  rejected, with the error message set and nothing else changed, exactly when no element
  remains. Loading \<^verbatim>\<open>[1, {"a":1}, "x"]\<close> gives the Document \<^verbatim>\<open>[{"a":1}]\<close>.
\<close>

theorem load_array_filters:
  "processJsonData (JArr xs) fname fsize st =
     (if filter isObjectLike xs = [] then st\<lparr>error := Some noListError\<rparr>
      else st\<lparr>meta := Some (fname, fsize),
              hist := \<lparr>past = [], present = JArr (filter isObjectLike xs), future = []\<rparr>,
              error := None\<rparr>) \<and>
   processJsonData (JArr [JNum 1, JObj [(''a'', JNum 1)], JStr ''x'']) fname fsize st =
     st\<lparr>meta := Some (fname, fsize),
        hist := \<lparr>past = [], present = JArr [JObj [(''a'', JNum 1)]], future = []\<rparr>,
        error := None\<rparr>"
  by (simp add: processJsonData_def dataToDisplay_def Let_def)

subsection \<open>Example states\<close>

lemma grid1_eq:
  "grid1 = \<lparr>meta = Some (''data.json'', 28),
      hist = \<lparr>past = [], present = doc1, future = []\<rparr>, error = None,
      path = [], searchTerm = [], focusedIndex = None, selectedIndices = [],
      anchorIndexRef = None, draggedIndex = None, dropTargetIndex = None,
      dragDataRef = None, dropTargetRef = None, console = []\<rparr>"
  by (simp add: grid1_def mountGrid_def processJsonData_def dataToDisplay_def doc1_def
      initialApp_def emptyHistory_def)

lemma grid4_eq:
  "grid4 = \<lparr>meta = Some (''data.json'', 64),
      hist = \<lparr>past = [], present = doc4, future = []\<rparr>, error = None,
      path = [], searchTerm = [], focusedIndex = None, selectedIndices = [],
      anchorIndexRef = None, draggedIndex = None, dropTargetIndex = None,
      dragDataRef = None, dropTargetRef = None, console = []\<rparr>"
  by (simp add: grid4_def mountGrid_def processJsonData_def dataToDisplay_def doc4_def
      initialApp_def emptyHistory_def)

lemma allItems_doc4:
  "allItems doc4 =
     [\<lparr>name = SIdx 0, ival = JObj [(''id'', JNum 1)]\<rparr>,
      \<lparr>name = SIdx 1, ival = JObj [(''id'', JNum 2)]\<rparr>,
      \<lparr>name = SIdx 2, ival = JObj [(''id'', JNum 3)]\<rparr>,
      \<lparr>name = SIdx 3, ival = JObj [(''id'', JNum 4)]\<rparr>]"
  by (simp add: allItems_def doc4_def)

subsection \<open>The root guard\<close>

text \<open>
  C3, as amended. For every update at the empty path: when the resulting root is not an
  array the update is rejected (the history, hence the Document, is left as it was, and
  the error is logged on the console); when it is an array, whatever its elements are,
  the update proceeds and is pushed to the history.
\<close>

theorem root_guard:
  "path st = [] \<Longrightarrow>
   updateDataAtCurrentPath newData st =
     (if isArray newData then Inr (st\<lparr>hist := handleDataUpdate newData (hist st)\<rparr>)
      else Inr (st\<lparr>console := console st @ [rootError]\<rparr>))"
  by (simp add: updateDataAtCurrentPath_def)

theorem root_guard_witness:
  "path grid1 = [] \<and>
   updateDataAtCurrentPath (JObj []) grid1 = Inr (grid1\<lparr>console := [rootError]\<rparr>) \<and>
   updateDataAtCurrentPath (JArr []) grid1 =
     Inr (grid1\<lparr>hist := \<lparr>past = [doc1], present = JArr [], future = []\<rparr>\<rparr>)"
  using root_guard [of grid1 "JObj []"] root_guard [of grid1 "JArr []"]
  by (simp add: grid1_eq handleDataUpdate_def doc1_def MAX_HISTORY_def)

text \<open>
  C3 as stated fails: at the empty path the root \<^verbatim>\<open>[1]\<close>, which is not a sequence of
  objects, is accepted and becomes the Document.
\<close>

theorem root_guard_counterexample:
  "path grid1 = [] \<and> \<not> isDocument (JArr [JNum 1]) \<and>
   updateDataAtCurrentPath (JArr [JNum 1]) grid1 =
     Inr (grid1\<lparr>hist := \<lparr>past = [doc1], present = JArr [JNum 1], future = []\<rparr>\<rparr>)"
  by (simp add: grid1_eq updateDataAtCurrentPath_def handleDataUpdate_def doc1_def
      MAX_HISTORY_def)

subsection \<open>Drag and drop\<close>

text \<open>
  C9. A drag gesture that ends with no captured target index changes nothing but the
  drag state: the history (and with it the Document) is untouched, nothing is pushed, and
  the drag context, the captured target and the advisory drop target are reset to empty.
\<close>

theorem drag_without_target:
  "dropTargetRef st = None \<Longrightarrow>
   onDragEnd st =
     Inr (st\<lparr>draggedIndex := None, dropTargetIndex := None,
             dragDataRef := None, dropTargetRef := None\<rparr>)"
  by (simp add: onDragEnd_def split: option.splits)

theorem drag_without_target_witness:
  "dropTargetRef (onDragStart 0 grid1) = None \<and>
   dragDataRef (onDragStart 0 grid1) \<noteq> None \<and>
   onDragEnd (onDragStart 0 grid1) =
     Inr (grid1\<lparr>focusedIndex := Some 0, selectedIndices := [0], anchorIndexRef := Some 0\<rparr>)"
proof -
  have h: "dropTargetRef (onDragStart 0 grid1) = None"
    by (simp add: onDragStart_def grid1_eq Let_def)
  show ?thesis
    using drag_without_target [OF h] h
    by (simp add: onDragStart_def grid1_eq Let_def)
qed

text \<open>
  C8. When the snapshot of the drag context is the live item list, the drag-end handler
  and the direct move of the same index set to the same target leave the same history
  (hence the same Document), the same selection, the same focus and the same anchor, or
  throw the same exception. (With a filter active both leave all four as they were.)
\<close>

theorem drag_commit_equals_direct_move:
  assumes "dragDataRef st = Some dd"
    and "itemsSnapshot dd = allItems (currentLevelData st)"
    and "dropTargetRef st = Some T"
  shows "map_sum id moveOutcome (onDragEnd st) =
         map_sum id moveOutcome (moveItemsDirect (indicesToMove dd) T st)"
proof -
  define items where "items = allItems (currentLevelData st)"
  define indices where "indices = sort (indicesToMove dd)"
  define itemsToMove where "itemsToMove = map (item_at items) indices"
  define itemsToStay where "itemsToStay = map Some (filter_not_in (indicesToMove dd) items)"
  define i0 where "i0 = T - int (length (filter (\<lambda>i. int i < T) indices))"
  define i1 where "i1 = (if i0 < 0 then 0 else i0)"
  define ins where
    "ins = (if i1 > int (length itemsToStay) then int (length itemsToStay) else i1)"
  define newData where
    "newData =
       (if isArray (currentLevelData st)
        then (case item_values (splice_insert itemsToStay ins itemsToMove) of
                None \<Rightarrow> Inl TypeError
              | Some vs \<Rightarrow> Inr (JArr vs))
        else map_sum id JObj (rebuild_object (splice_insert itemsToStay ins itemsToMove) []))"
  define sel where
    "sel = (\<lambda>s::grid_state.
       s\<lparr>selectedIndices := map (\<lambda>i. nat ins + i) [0..<length itemsToMove],
         focusedIndex := Some (nat ins), anchorIndexRef := Some (nat ins)\<rparr>)"
  define cleanup where
    "cleanup = (\<lambda>s::grid_state.
       s\<lparr>draggedIndex := None, dropTargetIndex := None,
         dragDataRef := None, dropTargetRef := None\<rparr>)"
  have direct:
    "moveItemsDirect (indicesToMove dd) T st =
       (if searchTerm st \<noteq> [] then Inr st
        else if length indices = 0 then Inr st
        else (case newData of
                Inl e \<Rightarrow> Inl e
              | Inr d \<Rightarrow>
                  (case updateDataAtCurrentPath d st of
                     Inl e \<Rightarrow> Inl e
                   | Inr st' \<Rightarrow> Inr (sel st'))))"
    unfolding moveItemsDirect_def Let_def sel_def newData_def ins_def i1_def i0_def
      itemsToStay_def itemsToMove_def indices_def items_def
    by (rule refl)
  have drag:
    "onDragEnd st =
       (if searchTerm st \<noteq> [] then Inr (cleanup st)
        else if length indices > 0 then
          (case newData of
             Inl e \<Rightarrow> Inl e
           | Inr d \<Rightarrow>
               (case updateDataAtCurrentPath d st of
                  Inl e \<Rightarrow> Inl e
                | Inr st' \<Rightarrow> Inr (cleanup (sel st'))))
        else Inr (cleanup st))"
    unfolding onDragEnd_def Let_def assms sel_def newData_def ins_def i1_def i0_def
      itemsToStay_def itemsToMove_def indices_def items_def cleanup_def
    by (simp only: prod.case option.case assms)
  have out: "moveOutcome (cleanup s) = moveOutcome s" for s
    by (simp add: moveOutcome_def cleanup_def)
  show ?thesis
  proof (cases "searchTerm st \<noteq> [] \<or> length indices = 0")
    case True
    then show ?thesis
      unfolding direct drag by (auto simp: out)
  next
    case False
    then have c: "searchTerm st = []" "length indices > 0" by auto
    show ?thesis
    proof (cases newData)
      case (Inl e)
      with c show ?thesis unfolding direct drag by simp
    next
      case (Inr d)
      with c show ?thesis
        unfolding direct drag by (cases "updateDataAtCurrentPath d st") (simp_all add: out)
    qed
  qed
qed

theorem drag_commit_equals_direct_move_witness:
  "dragDataRef (onDragOver True 2 (onDragStart 0 grid4)) =
     Some \<lparr>sourceIndex = 0, indicesToMove = [0], itemsSnapshot = allItems doc4\<rparr> \<and>
   allItems (currentLevelData (onDragOver True 2 (onDragStart 0 grid4))) = allItems doc4 \<and>
   dropTargetRef (onDragOver True 2 (onDragStart 0 grid4)) = Some 3 \<and>
   map_sum id moveOutcome (onDragEnd (onDragOver True 2 (onDragStart 0 grid4))) =
   map_sum id moveOutcome (moveItemsDirect [0] 3 (onDragOver True 2 (onDragStart 0 grid4)))"
proof -
  let ?st = "onDragOver True 2 (onDragStart 0 grid4)"
  let ?dd = "\<lparr>sourceIndex = 0, indicesToMove = [0], itemsSnapshot = allItems doc4\<rparr>"
  have cld: "currentLevelData ?st = doc4"
    by (simp add: currentLevelData_def onDragOver_def onDragStart_def grid4_eq Let_def)
  have h1: "dragDataRef ?st = Some ?dd"
    by (simp add: onDragOver_def onDragStart_def Let_def grid4_eq currentLevelData_def)
  have h2: "itemsSnapshot ?dd = allItems (currentLevelData ?st)"
    by (simp add: cld)
  have h3: "dropTargetRef ?st = Some 3"
    by (simp add: onDragOver_def Let_def)
  from drag_commit_equals_direct_move [OF h1 h2 h3] h1 h3 cld show ?thesis
    by simp
qed

subsection \<open>Reorder\<close>

lemma enumerate_filter_nths:
  "map snd (filter (\<lambda>(i, x). i \<notin> S) (enumerate n xs)) = nths xs {j. j + n \<notin> S}"
proof (induction xs arbitrary: n)
  case Nil
  show ?case by simp
next
  case (Cons x xs)
  have "{j. Suc j + n \<notin> S} = {j. j + Suc n \<notin> S}" by simp
  with Cons[of "Suc n"] show ?case
    by (simp add: nths_Cons)
qed

lemma filter_not_in_nths: "filter_not_in M xs = nths xs (- set M)"
proof -
  have "{j. j \<notin> set M} = - set M" by auto
  then show ?thesis
    using enumerate_filter_nths[of "set M" 0 xs] by (simp add: filter_not_in_def)
qed

lemma nths_filter_upt: "nths xs A = map ((!) xs) (filter (\<lambda>i. i \<in> A) [0..<length xs])"
proof -
  have z: "zip xs [0..<length xs] = map (\<lambda>i. (xs ! i, i)) [0..<length xs]"
    by (rule nth_equalityI) simp_all
  show ?thesis
    unfolding nths_def z by (simp add: filter_map comp_def)
qed

lemma sorted_indices_filter_upt:
  assumes "distinct M" and "\<forall>m\<in>set M. m < n"
  shows "sort M = filter (\<lambda>i. i \<in> set M) [0..<n]"
proof (rule sorted_distinct_set_unique)
  show "sorted (sort M)" by simp
  show "distinct (sort M)" using assms(1) by simp
  show "sorted (filter (\<lambda>i. i \<in> set M) [0..<n])" by (simp add: sorted_filter[where f = id, simplified])
  show "distinct (filter (\<lambda>i. i \<in> set M) [0..<n])" by simp
  show "set (sort M) = set (filter (\<lambda>i. i \<in> set M) [0..<n])" using assms(2) by auto
qed

lemma map_nth_sort_nths:
  assumes "distinct M" and "\<forall>m\<in>set M. m < length xs"
  shows "map ((!) xs) (sort M) = nths xs (set M)"
  by (simp add: nths_filter_upt sorted_indices_filter_upt[OF assms])

lemma map_item_at_sort:
  assumes "distinct M" and "\<forall>m\<in>set M. m < length xs"
  shows "map (item_at xs) (sort M) = map Some (nths xs (set M))"
proof -
  have "map (item_at xs) (sort M) = map (Some \<circ> (!) xs) (sort M)"
    using assms(2) by (simp add: item_at_def)
  then show ?thesis
    using map_nth_sort_nths[OF assms] by (simp flip: map_map)
qed

lemma length_filter_sort_card:
  assumes "distinct M"
  shows "length (filter P (sort M)) = card {m \<in> set M. P m}"
proof -
  have "distinct (filter P (sort M))" using assms by simp
  from distinct_card[OF this] show ?thesis by simp
qed

lemma splice_insert_clamped:
  "0 \<le> s \<Longrightarrow> s \<le> int (length xs) \<Longrightarrow>
   splice_insert xs s ys = take (nat s) xs @ ys @ drop (nat s) xs"
  by (simp add: splice_insert_def Let_def min_def)

lemma item_values_Some: "item_values (map Some xs) = Some (map ival xs)"
  by (induction xs) simp_all


lemma reorder_spec_map: "map f (reorder_spec xs M T) = reorder_spec (map f xs) M T"
  by (simp add: reorder_spec_def Let_def nths_map take_map drop_map)

lemma allItems_array:
  "allItems (JArr xs) = map (\<lambda>(idx, val). \<lparr>name = SIdx idx, ival = val\<rparr>) (enumerate 0 xs)"
  by (simp add: allItems_def)

lemma map_ival_enumerate:
  "map ival (map (\<lambda>(idx, val). \<lparr>name = SIdx idx, ival = val\<rparr>) (enumerate n xs)) = xs"
  by (induction xs arbitrary: n) simp_all

lemma map_ival_allItems_array: "map ival (allItems (JArr xs)) = xs"
  by (simp add: allItems_array map_ival_enumerate del: map_map)

lemma length_allItems_array: "length (allItems (JArr xs)) = length xs"
  by (simp add: allItems_array)

text \<open>The items the handler builds are the reorder of the spec.\<close>

lemma moveItemsDirect_reorder:
  assumes s: "searchTerm st = []" and ne: "M \<noteq> []" and d: "distinct M"
    and r: "\<forall>m\<in>set M. m < length (allItems (currentLevelData st))"
  shows "moveItemsDirect M T st =
     (let items = allItems (currentLevelData st);
          newItems = reorder_spec items (set M) T;
          a = adjustedT (length (nths items (- set M))) (set M) T;
          newData =
            (if isArray (currentLevelData st) then Inr (JArr (map ival newItems))
             else map_sum id JObj (rebuild_object (map Some newItems) []))
      in case newData of
           Inl e \<Rightarrow> Inl e
         | Inr d \<Rightarrow>
             (case updateDataAtCurrentPath d st of
                Inl e \<Rightarrow> Inl e
              | Inr st' \<Rightarrow>
                  Inr (st'\<lparr>selectedIndices := [a..<a + length M],
                           focusedIndex := Some a, anchorIndexRef := Some a\<rparr>)))"
proof -
  define items where "items = allItems (currentLevelData st)"
  define stay where "stay = nths items (- set M)"
  define i0 where "i0 = T - int (length (filter (\<lambda>i. int i < T) (sort M)))"
  define i1 where "i1 = (if i0 < 0 then 0 else i0)"
  define ins where "ins = (if i1 > int (length (map Some stay)) then int (length (map Some stay)) else i1)"
  define a where "a = adjustedT (length stay) (set M) T"
  have i0: "i0 = T - int (card {m \<in> set M. int m < T})"
    by (simp add: i0_def length_filter_sort_card[OF d])
  have ins: "ins = int a" "0 \<le> ins" "ins \<le> int (length (map Some stay))"
    by (auto simp: ins_def i1_def i0 a_def adjustedT_def)
  have mv: "map (item_at items) (sort M) = map Some (nths items (set M))"
    using map_item_at_sort[OF d] r by (simp add: items_def)
  have new: "splice_insert (map Some stay) ins (map (item_at items) (sort M)) =
      map Some (reorder_spec items (set M) T)"
    unfolding splice_insert_clamped[OF ins(2,3)] mv
    by (simp add: reorder_spec_def Let_def stay_def a_def[unfolded stay_def] ins(1) take_map drop_map)
  have sel: "map (\<lambda>i. nat ins + i) [0..<length (map (item_at items) (sort M))] = [a..<a + length M]"
    using map_add_upt[of a "length M"] by (simp add: ins(1) add.commute)
  have unf: "moveItemsDirect M T st =
      (case (if isArray (currentLevelData st)
             then (case item_values (splice_insert (map Some stay) ins (map (item_at items) (sort M))) of
                     None \<Rightarrow> Inl TypeError
                   | Some vs \<Rightarrow> Inr (JArr vs))
             else map_sum id JObj (rebuild_object (splice_insert (map Some stay) ins (map (item_at items) (sort M))) [])) of
         Inl e \<Rightarrow> Inl e
       | Inr d \<Rightarrow>
           (case updateDataAtCurrentPath d st of
              Inl e \<Rightarrow> Inl e
            | Inr st' \<Rightarrow>
                Inr (st'\<lparr>selectedIndices := map (\<lambda>i. nat ins + i) [0..<length (map (item_at items) (sort M))],
                         focusedIndex := Some (nat ins), anchorIndexRef := Some (nat ins)\<rparr>)))"
    unfolding moveItemsDirect_def Let_def ins_def i1_def i0_def stay_def items_def
      filter_not_in_nths
    using s ne by simp
  show ?thesis
    unfolding unf new sel
    by (simp add: item_values_Some Let_def ins(1) items_def stay_def a_def
        cong: sum.case_cong)
qed


lemma updateDataAtCurrentPath_root:
  "path st = [] \<Longrightarrow>
   updateDataAtCurrentPath newData st =
     (if isArray newData then Inr (st\<lparr>hist := handleDataUpdate newData (hist st)\<rparr>)
      else Inr (st\<lparr>console := console st @ [rootError]\<rparr>))"
  by (simp add: updateDataAtCurrentPath_def)

lemma currentLevelData_root: "path st = [] \<Longrightarrow> currentLevelData st = present (hist st)"
  by (simp add: currentLevelData_def)

lemma item_values_undefined: "item_values (xs @ None # ys) = None"
  by (induction xs rule: item_values.induct) simp_all

lemma moveItemsDirect_array:
  assumes "searchTerm st = []" and "M \<noteq> []" and "distinct M"
    and "\<forall>m\<in>set M. m < length xs" and "currentLevelData st = JArr xs"
  shows "moveItemsDirect M T st =
     (case updateDataAtCurrentPath (JArr (reorder_spec xs (set M) T)) st of
        Inl e \<Rightarrow> Inl e
      | Inr st' \<Rightarrow>
          Inr (st'\<lparr>selectedIndices :=
                     [adjustedT (length (nths xs (- set M))) (set M) T ..<
                      adjustedT (length (nths xs (- set M))) (set M) T + length M],
                   focusedIndex := Some (adjustedT (length (nths xs (- set M))) (set M) T),
                   anchorIndexRef := Some (adjustedT (length (nths xs (- set M))) (set M) T)\<rparr>))"
proof -
  have r: "\<forall>m\<in>set M. m < length (allItems (currentLevelData st))"
    using assms(4,5) by (simp add: length_allItems_array)
  have l: "length (nths (allItems (JArr xs)) (- set M)) = length (nths xs (- set M))"
    by (simp add: length_nths length_allItems_array)
  show ?thesis
    unfolding moveItemsDirect_reorder[OF assms(1-3) r] Let_def assms(5)
    by (simp add: reorder_spec_map map_ival_allItems_array l cong: sum.case_cong)
qed

lemma reorder_spec_self:
  assumes "2 < length xs"
  shows "reorder_spec xs {2} 2 = xs"
    and "adjustedT (length (nths xs (- {2}))) {2} 2 = 2"
proof -
  obtain x0 x1 x2 rest where xs: "xs = x0 # x1 # x2 # rest"
    using assms by (cases xs; cases "tl xs"; cases "tl (tl xs)") auto
  have e: "{j. Suc (Suc (Suc j)) \<in> - {2::nat}} = UNIV" "{j. Suc (Suc (Suc j)) = (2::nat)} = {}"
    by auto
  have c: "{m::nat. m = 2 \<and> m < 2} = {}" by auto
  have stay: "nths xs (- {2}) = x0 # x1 # rest"
    by (simp add: xs nths_Cons e nths_all)
  have move: "nths xs {2} = [x2]"
    by (simp add: xs nths_Cons e)
  show a: "adjustedT (length (nths xs (- {2}))) {2} 2 = 2"
    by (simp add: stay adjustedT_def c)
  show "reorder_spec xs {2} 2 = xs"
    unfolding reorder_spec_def Let_def a unfolding stay move by (simp add: xs)
qed


lemma allItems_object:
  "allItems (JObj kvs) = map (\<lambda>(key, val). \<lparr>name = SKey key, ival = val\<rparr>) kvs"
  by (simp add: allItems_def)

lemma obj_set_fresh_plain:
  "k \<notin> set (map fst acc) \<Longrightarrow> arrayIndex k = None \<Longrightarrow> k \<noteq> ''__proto__'' \<Longrightarrow>
   obj_set acc k v = acc @ [(k, v)]"
  by (simp add: obj_set_def proto_setter_def)

lemma rebuild_object_plain:
  assumes "distinct (map fst kvs)"
    and "\<forall>k\<in>set (map fst kvs). arrayIndex k = None \<and> k \<noteq> ''__proto__''"
    and "set (map fst kvs) \<inter> set (map fst acc) = {}"
  shows "rebuild_object
           (map Some (map (\<lambda>(key, val). \<lparr>name = SKey key, ival = val\<rparr>) kvs)) acc =
         Inr (acc @ kvs)"
  using assms
proof (induction kvs arbitrary: acc)
  case Nil
  show ?case by simp
next
  case (Cons kv kvs)
  obtain k v where kv: "kv = (k, v)" by (cases kv)
  have fresh: "k \<notin> set (map fst acc)" and plain: "arrayIndex k = None"
    and np: "k \<noteq> ''__proto__''"
    using Cons.prems kv by auto
  have "set (map fst kvs) \<inter> set (map fst (acc @ [(k, v)])) = {}"
    using Cons.prems kv by auto
  with Cons.IH[of "acc @ [(k, v)]"] Cons.prems show ?case
    by (simp add: kv obj_set_fresh_plain[OF fresh plain np] proto_setter_def np)
qed

lemma nths_disjoint:
  assumes "distinct ks"
  shows "set (nths ks (- M)) \<inter> set (nths ks M) = {}"
  using assms by (auto simp: set_nths nth_eq_iff_index_eq)

lemma reorder_spec_distinct:
  assumes "distinct ks"
  shows "distinct (reorder_spec ks M T)"
proof -
  let ?stay = "nths ks (- M)"
  let ?a = "adjustedT (length ?stay) M T"
  have d: "distinct (take ?a ?stay) \<and> distinct (drop ?a ?stay) \<and>
      set (take ?a ?stay) \<inter> set (drop ?a ?stay) = {}"
    using distinct_append[of "take ?a ?stay" "drop ?a ?stay"] assms by simp
  have s: "set (take ?a ?stay) \<union> set (drop ?a ?stay) = set ?stay"
    by (metis append_take_drop_id set_append)
  show ?thesis
    using d s nths_disjoint[OF assms, of M] assms
    by (auto simp: reorder_spec_def Let_def)
qed

lemma reorder_spec_subset: "set (reorder_spec ks M T) \<subseteq> set ks"
  by (auto simp: reorder_spec_def Let_def dest: in_set_takeD in_set_dropD in_set_nthsD)

lemma moveItemsDirect_object:
  assumes "searchTerm st = []" and "M \<noteq> []" and "distinct M"
    and "\<forall>m\<in>set M. m < length kvs" and "currentLevelData st = JObj kvs"
    and dk: "distinct (map fst kvs)"
    and pk: "\<forall>k\<in>set (map fst kvs). arrayIndex k = None \<and> k \<noteq> ''__proto__''"
  shows "moveItemsDirect M T st =
     (case updateDataAtCurrentPath (JObj (reorder_spec kvs (set M) T)) st of
        Inl e \<Rightarrow> Inl e
      | Inr st' \<Rightarrow>
          Inr (st'\<lparr>selectedIndices :=
                     [adjustedT (length (nths kvs (- set M))) (set M) T ..<
                      adjustedT (length (nths kvs (- set M))) (set M) T + length M],
                   focusedIndex := Some (adjustedT (length (nths kvs (- set M))) (set M) T),
                   anchorIndexRef := Some (adjustedT (length (nths kvs (- set M))) (set M) T)\<rparr>))"
proof -
  let ?mk = "\<lambda>(key, val). \<lparr>name = SKey key, ival = val\<rparr>"
  let ?r = "reorder_spec kvs (set M) T"
  have r: "\<forall>m\<in>set M. m < length (allItems (currentLevelData st))"
    using assms(4,5) by (simp add: allItems_object)
  have l: "length (nths (allItems (JObj kvs)) (- set M)) = length (nths kvs (- set M))"
    by (simp add: length_nths allItems_object)
  have m: "reorder_spec (allItems (JObj kvs)) (set M) T = map ?mk ?r"
    by (simp add: allItems_object reorder_spec_map)
  have "distinct (map fst ?r)"
    using reorder_spec_distinct[OF dk, of "set M" T] by (simp add: reorder_spec_map)
  moreover have "\<forall>k\<in>set (map fst ?r). arrayIndex k = None \<and> k \<noteq> ''__proto__''"
    using reorder_spec_subset[of "map fst kvs" "set M" T] pk
    by (auto simp: reorder_spec_map simp del: set_map)
  ultimately have f: "rebuild_object (map Some (map ?mk ?r)) [] = Inr ?r"
    using rebuild_object_plain[of ?r "[]"] by simp
  show ?thesis
    unfolding moveItemsDirect_reorder[OF assms(1-3) r] Let_def assms(5) m f l
    by simp
qed


lemma moveItemsDirect_undefined:
  assumes "searchTerm st = []" and "currentLevelData st = JArr xs" and "length xs \<le> 2"
  shows "moveItemsDirect [2] 2 st = Inl TypeError"
proof -
  have "item_at (allItems (JArr xs)) 2 = None"
    using assms(3) by (simp add: item_at_def length_allItems_array)
  then show ?thesis
    using assms(1,2)
    by (simp add: moveItemsDirect_def Let_def splice_insert_def item_values_undefined)
qed

lemma moveItemsDirect_root_examples:
  assumes h: "searchTerm st = []" "path st = []"
  shows "present (hist st) = JArr xs \<Longrightarrow> 2 < length xs \<Longrightarrow>
      moveItemsDirect [2] 2 st =
        Inr (st\<lparr>hist := handleDataUpdate (JArr xs) (hist st), selectedIndices := [2],
               focusedIndex := Some 2, anchorIndexRef := Some 2\<rparr>)"
    and "present (hist st) = JArr [a, b, c, d] \<Longrightarrow>
      moveItemsDirect [0] 3 st =
        Inr (st\<lparr>hist := handleDataUpdate (JArr [b, c, a, d]) (hist st), selectedIndices := [2],
               focusedIndex := Some 2, anchorIndexRef := Some 2\<rparr>)"
    and "present (hist st) = JArr [a, b, c, d] \<Longrightarrow>
      moveItemsDirect [1, 3] 0 st =
        Inr (st\<lparr>hist := handleDataUpdate (JArr [b, d, a, c]) (hist st),
               selectedIndices := [0, 1],
               focusedIndex := Some 0, anchorIndexRef := Some 0\<rparr>)"
proof -
  assume p: "present (hist st) = JArr xs" and l: "2 < length xs"
  have cld: "currentLevelData st = JArr xs" using h p by (simp add: currentLevelData_root)
  have "moveItemsDirect [2] 2 st =
      (case updateDataAtCurrentPath (JArr (reorder_spec xs (set [2]) 2)) st of
         Inl e \<Rightarrow> Inl e
       | Inr st' \<Rightarrow>
           Inr (st'\<lparr>selectedIndices :=
                      [adjustedT (length (nths xs (- set [2]))) (set [2]) 2 ..<
                       adjustedT (length (nths xs (- set [2]))) (set [2]) 2 + length [2::nat]],
                    focusedIndex := Some (adjustedT (length (nths xs (- set [2]))) (set [2]) 2),
                    anchorIndexRef :=
                      Some (adjustedT (length (nths xs (- set [2]))) (set [2]) 2)\<rparr>))"
    using h l by (intro moveItemsDirect_array cld) simp_all
  then show "moveItemsDirect [2] 2 st =
        Inr (st\<lparr>hist := handleDataUpdate (JArr xs) (hist st), selectedIndices := [2],
               focusedIndex := Some 2, anchorIndexRef := Some 2\<rparr>)"
    using h p l by (simp add: reorder_spec_self updateDataAtCurrentPath_root)
next
  assume p: "present (hist st) = JArr [a, b, c, d]"
  with h show "moveItemsDirect [0] 3 st =
        Inr (st\<lparr>hist := handleDataUpdate (JArr [b, c, a, d]) (hist st), selectedIndices := [2],
               focusedIndex := Some 2, anchorIndexRef := Some 2\<rparr>)"
    by (simp add: moveItemsDirect_def Let_def currentLevelData_root allItems_def item_at_def
        filter_not_in_def splice_insert_def updateDataAtCurrentPath_root)
next
  assume p: "present (hist st) = JArr [a, b, c, d]"
  with h show "moveItemsDirect [1, 3] 0 st =
        Inr (st\<lparr>hist := handleDataUpdate (JArr [b, d, a, c]) (hist st),
               selectedIndices := [0, 1],
               focusedIndex := Some 0, anchorIndexRef := Some 0\<rparr>)"
    by (simp add: moveItemsDirect_def Let_def currentLevelData_root allItems_def item_at_def
        filter_not_in_def splice_insert_def updateDataAtCurrentPath_root)
qed

lemma gridIndexKeys_eq:
  "gridIndexKeys = \<lparr>meta = Some (''data.json'', 23),
      hist = \<lparr>past = [], present = docIndexKeys, future = []\<rparr>, error = None,
      path = [SIdx 0], searchTerm = [], focusedIndex = None, selectedIndices = [],
      anchorIndexRef = None, draggedIndex = None, dropTargetIndex = None,
      dragDataRef = None, dropTargetRef = None, console = []\<rparr>"
  by (simp add: gridIndexKeys_def mountGrid_def processJsonData_def dataToDisplay_def
      docIndexKeys_def initialApp_def emptyHistory_def)

lemma gridProto_eq:
  "gridProto = \<lparr>meta = Some (''data.json'', 25),
      hist = \<lparr>past = [], present = docProto, future = []\<rparr>, error = None,
      path = [SIdx 0], searchTerm = [], focusedIndex = None, selectedIndices = [],
      anchorIndexRef = None, draggedIndex = None, dropTargetIndex = None,
      dragDataRef = None, dropTargetRef = None, console = []\<rparr>"
  by (simp add: gridProto_def mountGrid_def processJsonData_def dataToDisplay_def
      docProto_def initialApp_def emptyHistory_def)

lemma arrayIndex_examples:
  "arrayIndex ''1'' = Some 1" "arrayIndex ''2'' = Some 2" "arrayIndex ''b'' = None"
  "arrayIndex ''__proto__'' = None"
  by (simp_all add: arrayIndex_def is_digit_def digits_value_def)

lemma currentLevelData_gridIndexKeys: "currentLevelData gridIndexKeys = JObj [(''1'', JNum 3), (''2'', JNum 2), (''b'', JNum 1)]"
  by (simp add: gridIndexKeys_eq currentLevelData_def docIndexKeys_def arr_get_def)

lemma reorder_spec_index_keys: "reorder_spec [(''1'', JNum 3), (''2'', JNum 2), (''b'', JNum 1)] {0} 2 =
     [(''2'', JNum 2), (''1'', JNum 3), (''b'', JNum 1)]"
  by (simp add: reorder_spec_def adjustedT_def nths_Cons Let_def Collect_conv_if)

lemma moveItemsDirect_index_keys: "moveItemsDirect [0] 2 gridIndexKeys =
     Inr (gridIndexKeys\<lparr>hist := \<lparr>past = [docIndexKeys], present = docIndexKeys, future = []\<rparr>,
                  selectedIndices := [1], focusedIndex := Some 1, anchorIndexRef := Some 1\<rparr>)"
proof -
  let ?kvs = "[(''1'', JNum 3), (''2'', JNum 2), (''b'', JNum 1)]"
  have s: "searchTerm gridIndexKeys = []" by (simp add: gridIndexKeys_eq)
  have mv: "moveItemsDirect [0] 2 gridIndexKeys =
      (case updateDataAtCurrentPath (JObj ?kvs) gridIndexKeys of
         Inl e \<Rightarrow> Inl e
       | Inr st' \<Rightarrow>
           Inr (st'\<lparr>selectedIndices := [1], focusedIndex := Some 1,
                    anchorIndexRef := Some 1\<rparr>))"
    by (simp add: moveItemsDirect_def Let_def s currentLevelData_gridIndexKeys allItems_def item_at_def
        filter_not_in_def splice_insert_def obj_set_def proto_setter_def
        arrayIndex_examples index_before_def cong: sum.case_cong)
  have upd: "updateDataAtCurrentPath (JObj ?kvs) gridIndexKeys =
      Inr (gridIndexKeys\<lparr>hist := \<lparr>past = [docIndexKeys], present = docIndexKeys,
                                     future = []\<rparr>\<rparr>)"
    by (simp add: updateDataAtCurrentPath_def gridIndexKeys_eq docIndexKeys_def arr_get_def
        arr_set_def handleDataUpdate_def MAX_HISTORY_def)
  show ?thesis unfolding mv upd by simp
qed

lemma currentLevelData_gridProto: "currentLevelData gridProto = JObj [(''__proto__'', JNum 5), (''b'', JNum 2)]"
  by (simp add: gridProto_eq currentLevelData_def docProto_def arr_get_def)

lemma reorder_spec_proto: "reorder_spec [(''__proto__'', JNum 5), (''b'', JNum 2)] {0} 2 =
     [(''b'', JNum 2), (''__proto__'', JNum 5)]"
  by (simp add: reorder_spec_def adjustedT_def nths_Cons Let_def Collect_conv_if)

lemma moveItemsDirect_proto: "moveItemsDirect [0] 2 gridProto =
     Inr (gridProto\<lparr>hist := \<lparr>past = [docProto], present = JArr [JObj [(''b'', JNum 2)]],
                               future = []\<rparr>,
                  selectedIndices := [1], focusedIndex := Some 1, anchorIndexRef := Some 1\<rparr>)"
proof -
  have s: "searchTerm gridProto = []" by (simp add: gridProto_eq)
  have mv: "moveItemsDirect [0] 2 gridProto =
      (case updateDataAtCurrentPath (JObj [(''b'', JNum 2)]) gridProto of
         Inl e \<Rightarrow> Inl e
       | Inr st' \<Rightarrow>
           Inr (st'\<lparr>selectedIndices := [1], focusedIndex := Some 1,
                    anchorIndexRef := Some 1\<rparr>))"
    by (simp add: moveItemsDirect_def Let_def s currentLevelData_gridProto allItems_def item_at_def
        filter_not_in_def splice_insert_def obj_set_def proto_setter_def
        arrayIndex_examples index_before_def cong: sum.case_cong)
  have upd: "updateDataAtCurrentPath (JObj [(''b'', JNum 2)]) gridProto =
      Inr (gridProto\<lparr>hist := \<lparr>past = [docProto], present = JArr [JObj [(''b'', JNum 2)]],
                                     future = []\<rparr>\<rparr>)"
    by (simp add: updateDataAtCurrentPath_def gridProto_eq docProto_def arr_get_def
        arr_set_def handleDataUpdate_def MAX_HISTORY_def)
  show ?thesis unfolding mv upd by simp
qed

lemma keyboard_move_index_keys: "grid_run anyItem gridIndexKeys [CardClick False False 0, MoveForward] =
     Inr (gridIndexKeys\<lparr>hist := \<lparr>past = [docIndexKeys], present = docIndexKeys, future = []\<rparr>,
                  selectedIndices := [1], focusedIndex := Some 1, anchorIndexRef := Some 1\<rparr>)"
proof -
  have e1: "grid_step anyItem gridIndexKeys (CardClick False False 0) =
      Inr (gridIndexKeys\<lparr>selectedIndices := [0], focusedIndex := Some 0,
                anchorIndexRef := Some 0\<rparr>)" (is "_ = Inr ?s1")
    by (simp add: grid_step_def handleCardClick_def clampEffect_def currentData_def
        currentLevelData_def filteredData_def allItems_def gridIndexKeys_eq docIndexKeys_def
        arr_get_def)
  have e2: "grid_step anyItem ?s1 MoveForward =
      Inr (gridIndexKeys\<lparr>hist := \<lparr>past = [docIndexKeys], present = docIndexKeys, future = []\<rparr>,
                  selectedIndices := [1], focusedIndex := Some 1, anchorIndexRef := Some 1\<rparr>)"
    by (simp add: grid_step_def keyboardMove_def handleMoveItems_def moveItemsDirect_def Let_def
        clampEffect_def currentData_def currentLevelData_def filteredData_def
        allItems_def item_at_def filter_not_in_def splice_insert_def math_max_def
        obj_set_def proto_setter_def arrayIndex_examples index_before_def
        updateDataAtCurrentPath_def gridIndexKeys_eq docIndexKeys_def arr_get_def
        arr_set_def handleDataUpdate_def MAX_HISTORY_def)
  show ?thesis
    by (simp only: grid_run.simps e1 e2 sum.case)
qed

lemma keyboard_move_proto: "grid_run anyItem gridProto [CardClick False False 0, MoveForward] =
     Inr (gridProto\<lparr>hist := \<lparr>past = [docProto], present = JArr [JObj [(''b'', JNum 2)]],
                               future = []\<rparr>,
                  selectedIndices := [], focusedIndex := Some 0, anchorIndexRef := Some 1\<rparr>)"
proof -
  have e1: "grid_step anyItem gridProto (CardClick False False 0) =
      Inr (gridProto\<lparr>selectedIndices := [0], focusedIndex := Some 0,
                anchorIndexRef := Some 0\<rparr>)" (is "_ = Inr ?s1")
    by (simp add: grid_step_def handleCardClick_def clampEffect_def currentData_def
        currentLevelData_def filteredData_def allItems_def gridProto_eq docProto_def
        arr_get_def)
  have e2: "grid_step anyItem ?s1 MoveForward =
     Inr (gridProto\<lparr>hist := \<lparr>past = [docProto], present = JArr [JObj [(''b'', JNum 2)]],
                               future = []\<rparr>,
                  selectedIndices := [], focusedIndex := Some 0, anchorIndexRef := Some 1\<rparr>)"
    by (simp add: grid_step_def keyboardMove_def handleMoveItems_def moveItemsDirect_def Let_def
        clampEffect_def currentData_def currentLevelData_def filteredData_def
        allItems_def item_at_def filter_not_in_def splice_insert_def math_max_def
        obj_set_def proto_setter_def arrayIndex_examples index_before_def
        updateDataAtCurrentPath_def gridProto_eq docProto_def arr_get_def
        arr_set_def handleDataUpdate_def MAX_HISTORY_def)
  show ?thesis
    by (simp only: grid_run.simps e1 e2 sum.case)
qed

text \<open>
  C1 does not hold of the code on objects. The item list the handler builds is the
  reorder of the claim, and for an array the container rebuilt from it is that list
  (\<open>moveItemsDirect_array\<close>, \<open>moveItemsDirect_root_examples\<close>). For an object the handler
  assigns the items to a fresh \<^verbatim>\<open>{}\<close> in the new order ("Reconstruct object preserving
  order"), and the object that results need not have its entries in that order, nor all
  of them. In \<^verbatim>\<open>{"1":3,"2":2,"b":1}\<close>, moving card 0 to target 2 (click card 0, Ctrl with
  the right arrow) should give the order \<^verbatim>\<open>2, 1, b\<close>: the keys that are array indices are
  enumerated first and in ascending order whatever the order of insertion, so the
  document is pushed to the history unchanged while selection, focus and anchor move to
  card 1, which is not the card that was moved. In \<^verbatim>\<open>{"__proto__":5,"b":2}\<close> the same
  move should give \<^verbatim>\<open>b, __proto__\<close>: the assignment of \<^verbatim>\<open>__proto__\<close> to the fresh object
  creates no entry, so the entry is lost from the document, and the selection is left on
  index 1 of a list of one card until the clamp effect clears it.
\<close>

theorem reorder_object_rebuild_diverges:
  "currentLevelData gridIndexKeys = JObj [(''1'', JNum 3), (''2'', JNum 2), (''b'', JNum 1)] \<and>
   reorder_spec [(''1'', JNum 3), (''2'', JNum 2), (''b'', JNum 1)] {0} 2 =
     [(''2'', JNum 2), (''1'', JNum 3), (''b'', JNum 1)] \<and>
   moveItemsDirect [0] 2 gridIndexKeys =
     Inr (gridIndexKeys\<lparr>hist := \<lparr>past = [docIndexKeys], present = docIndexKeys, future = []\<rparr>,
            selectedIndices := [1], focusedIndex := Some 1, anchorIndexRef := Some 1\<rparr>) \<and>
   grid_run anyItem gridIndexKeys [CardClick False False 0, MoveForward] =
     Inr (gridIndexKeys\<lparr>hist := \<lparr>past = [docIndexKeys], present = docIndexKeys, future = []\<rparr>,
            selectedIndices := [1], focusedIndex := Some 1, anchorIndexRef := Some 1\<rparr>) \<and>
   currentLevelData gridProto = JObj [(''__proto__'', JNum 5), (''b'', JNum 2)] \<and>
   reorder_spec [(''__proto__'', JNum 5), (''b'', JNum 2)] {0} 2 =
     [(''b'', JNum 2), (''__proto__'', JNum 5)] \<and>
   moveItemsDirect [0] 2 gridProto =
     Inr (gridProto\<lparr>hist := \<lparr>past = [docProto], present = JArr [JObj [(''b'', JNum 2)]],
                           future = []\<rparr>,
            selectedIndices := [1], focusedIndex := Some 1, anchorIndexRef := Some 1\<rparr>) \<and>
   grid_run anyItem gridProto [CardClick False False 0, MoveForward] =
     Inr (gridProto\<lparr>hist := \<lparr>past = [docProto], present = JArr [JObj [(''b'', JNum 2)]],
                           future = []\<rparr>,
            selectedIndices := [], focusedIndex := Some 0, anchorIndexRef := Some 1\<rparr>)"
  by (intro conjI currentLevelData_gridIndexKeys reorder_spec_index_keys
      moveItemsDirect_index_keys keyboard_move_index_keys currentLevelData_gridProto
      reorder_spec_proto moveItemsDirect_proto keyboard_move_proto)

subsection \<open>Delete\<close>

lemma nths_cong_range:
  "(\<And>i. i < length xs \<Longrightarrow> i \<in> A \<longleftrightarrow> i \<in> B) \<Longrightarrow> nths xs A = nths xs B"
proof -
  assume r: "\<And>i. i < length xs \<Longrightarrow> i \<in> A \<longleftrightarrow> i \<in> B"
  have "filter (\<lambda>i. i \<in> A) [0..<length xs] = filter (\<lambda>i. i \<in> B) [0..<length xs]"
    by (rule filter_cong) (simp_all add: r)
  then show ?thesis by (simp add: nths_filter_upt)
qed

lemma nths_remove_top:
  assumes "\<forall>e\<in>S. e < d"
  shows "nths (if d < length xs then splice_remove xs d else xs) (- S) = nths xs (- insert d S)"
proof (cases "d < length xs")
  case False
  then show ?thesis by (auto intro: nths_cong_range)
next
  case True
  have u: "{j. j + d \<in> - S} = UNIV" "{j. Suc j + d \<in> - insert d S} = UNIV"
    "{j. Suc (j + d) \<notin> S} = UNIV" "{j. j + d \<notin> S} = UNIV"
    using assms by (auto simp: less_irrefl_nat)
  have l: "length (take d xs) = d" using True by simp
  have a: "nths (take d xs) (- insert d S) = nths (take d xs) (- S)"
    by (rule nths_cong_range) (simp add: l)
  have "nths xs (- insert d S) = nths (take d xs @ xs ! d # drop (Suc d) xs) (- insert d S)"
    using True by (simp add: id_take_nth_drop[symmetric])
  also have "\<dots> = nths (take d xs) (- S) @ drop (Suc d) xs"
    unfolding nths_append l a nths_Cons u by (simp add: nths_all u)
  also have "\<dots> = nths (splice_remove xs d) (- S)"
    unfolding splice_remove_def nths_append l u by (simp add: nths_all u)
  finally show ?thesis using True by simp
qed

lemma foldl_splice_remove:
  assumes "sorted_wrt (>) ds"
  shows "foldl (\<lambda>newArray idx. if idx < length newArray then splice_remove newArray idx
                                 else newArray) xs ds = nths xs (- set ds)"
  using assms
proof (induction ds arbitrary: xs)
  case Nil
  show ?case by (simp add: nths_all)
next
  case (Cons d ds)
  have lt: "\<forall>e\<in>set ds. e < d" using Cons.prems by auto
  have "sorted_wrt (>) ds" using Cons.prems by simp
  from Cons.IH[OF this] nths_remove_top[OF lt, of xs] show ?case
    by simp
qed

lemma rev_sort_descending:
  assumes "distinct ns"
  shows "sorted_wrt (>) (rev (sort ns))"
proof -
  have "sorted_wrt (<) (sort ns)"
    using assms by (simp add: strict_sorted_iff)
  then show ?thesis
    by (simp add: sorted_wrt_rev)
qed

lemma delete_array_indices:
  assumes "distinct ns"
  shows "foldl (\<lambda>newArray idx. if idx < length newArray then splice_remove newArray idx
                                 else newArray) xs (rev (sort ns)) = nths xs (- set ns)"
  using foldl_splice_remove[OF rev_sort_descending[OF assms], of xs] by simp

lemma delete_object_keys:
  "foldl (\<lambda>newObj i. obj_delete newObj (String (name i))) kvs items =
     filter (\<lambda>kv. fst kv \<notin> set (map (\<lambda>i. String (name i)) items)) kvs"
proof (induction items arbitrary: kvs)
  case Nil
  show ?case by simp
next
  case (Cons i items)
  show ?case
    by (simp only: foldl.simps Cons.IH) (auto simp: obj_delete_def intro: filter_cong)
qed

lemma math_min_Min: "xs \<noteq> [] \<Longrightarrow> math_min xs = Min (set xs)"
  by (cases xs) (simp_all add: math_min_def Min.set_eq_fold[symmetric])


lemma nth_allItems_array:
  "i < length xs \<Longrightarrow> allItems (JArr xs) ! i = \<lparr>name = SIdx i, ival = xs ! i\<rparr>"
  by (simp add: allItems_array nth_enumerate_eq)

lemma names_allItems_array: "map name (allItems (JArr xs)) = map SIdx [0..<length xs]"
  by (rule nth_equalityI) (simp_all add: length_allItems_array nth_allItems_array)

lemma name_numbers_indices:
  "map name items = map SIdx ns \<Longrightarrow> name_numbers items = ns"
  by (induction items arbitrary: ns) auto

lemma name_numbers_unfiltered:
  assumes "\<forall>i\<in>set ixs. i < length xs"
  shows "name_numbers (map ((!) (allItems (JArr xs))) ixs) = ixs"
  using assms by (intro name_numbers_indices) (simp add: nth_allItems_array)

lemma names_filteredData_array:
  "\<exists>ns. map name (filteredData matches term (allItems (JArr xs))) = map SIdx ns \<and> distinct ns"
proof -
  let ?items = "allItems (JArr xs)"
  have sub: "\<exists>ns. map name (filter P ?items) = map SIdx ns \<and> distinct ns" for P
  proof -
    have "map name (filter P ?items) = map SIdx (map (\<lambda>i. case name i of SIdx n \<Rightarrow> n | SKey k \<Rightarrow> 0) (filter P ?items))"
      by (auto simp: allItems_array in_set_enumerate_eq)
    moreover have "distinct (map name (filter P ?items))"
      by (rule distinct_map_filter) (simp add: names_allItems_array distinct_map inj_on_def)
    ultimately show ?thesis
      by (metis distinct_map)
  qed
  from sub[of "\<lambda>i. True"] sub[of "matches term"] show ?thesis
    by (simp add: filteredData_def)
qed

lemma chosen_true_indices_distinct:
  assumes "currentLevelData st = JArr xs" and "distinct ixs"
    and "\<forall>i\<in>set ixs. i < length (currentData matches st)"
  shows "distinct (name_numbers (map ((!) (currentData matches st)) ixs))"
proof -
  obtain ns where ns: "map name (currentData matches st) = map SIdx ns" "distinct ns"
    using names_filteredData_array[of matches "searchTerm st" xs] assms(1)
    by (auto simp: currentData_def)
  have len: "length ns = length (currentData matches st)"
    using ns(1) by (metis length_map)
  have "map name (map ((!) (currentData matches st)) ixs) = map SIdx (map ((!) ns) ixs)"
  proof -
    have "name (currentData matches st ! i) = SIdx (ns ! i)" if "i \<in> set ixs" for i
      using that assms(3) ns(1) len by (metis nth_map)
    then show ?thesis by simp
  qed
  then have "name_numbers (map ((!) (currentData matches st)) ixs) = map ((!) ns) ixs"
    by (rule name_numbers_indices)
  moreover have "distinct (map ((!) ns) ixs)"
    using assms(2,3) ns(2) len by (auto simp: distinct_map inj_on_def nth_eq_iff_index_eq)
  ultimately show ?thesis by simp
qed

lemma distinct_chosenIndices:
  "distinct (selectedIndices st) \<Longrightarrow> distinct (chosenIndices t st)"
  by (auto simp: chosenIndices_def split: option.splits)

lemma handleDelete_unfold:
  assumes "validIndices (currentData matches st) (chosenIndices t st) \<noteq> []"
  shows "handleDelete matches t st =
     (case updateDataAtCurrentPath
         (case currentLevelData st of
            JArr xs \<Rightarrow>
              JArr (foldl (\<lambda>newArray idx. if idx < length newArray then splice_remove newArray idx
                                           else newArray)
                      xs (rev (sort (name_numbers (map ((!) (currentData matches st))
                         (validIndices (currentData matches st) (chosenIndices t st)))))))
          | v \<Rightarrow>
              JObj (foldl (\<lambda>newObj i. obj_delete newObj (String (name i)))
                      (spread_object v) (map ((!) (currentData matches st))
                         (validIndices (currentData matches st) (chosenIndices t st))))) st of
        Inl e \<Rightarrow> Inl e
      | Inr st' \<Rightarrow>
          Inr (st'\<lparr>selectedIndices := [],
                   focusedIndex := Some (math_min
                     (validIndices (currentData matches st) (chosenIndices t st)))\<rparr>))"
proof -
  have "chosenIndices t st \<noteq> []"
    using assms by (auto simp: validIndices_def)
  with assms show ?thesis
    unfolding handleDelete_def Let_def by simp
qed


lemma handleDelete_array:
  assumes "distinct (selectedIndices st)" and "currentLevelData st = JArr xs"
    and "validIndices (currentData matches st) (chosenIndices t st) = ixs" and "ixs \<noteq> []"
  shows "handleDelete matches t st =
     (case updateDataAtCurrentPath
         (JArr (nths xs (- set (name_numbers (map ((!) (currentData matches st)) ixs))))) st of
        Inl e \<Rightarrow> Inl e
      | Inr st' \<Rightarrow> Inr (st'\<lparr>selectedIndices := [], focusedIndex := Some (Min (set ixs))\<rparr>))"
proof -
  have v: "validIndices (currentData matches st) (chosenIndices t st) \<noteq> []"
    using assms(3,4) by simp
  have "distinct ixs" "\<forall>i\<in>set ixs. i < length (currentData matches st)"
    using assms(3) distinct_chosenIndices[OF assms(1), of t]
    by (auto simp: validIndices_def)
  then have "distinct (name_numbers (map ((!) (currentData matches st)) ixs))"
    by (rule chosen_true_indices_distinct[OF assms(2)])
  from delete_array_indices[OF this, of xs] show ?thesis
    unfolding handleDelete_unfold[OF v] assms(2,3)
    by (simp add: math_min_Min[OF assms(4)] cong: sum.case_cong)
qed

lemma handleDelete_object:
  assumes "currentLevelData st = JObj kvs"
    and "validIndices (currentData matches st) (chosenIndices t st) = ixs" and "ixs \<noteq> []"
  shows "handleDelete matches t st =
     (case updateDataAtCurrentPath
         (JObj (filter (\<lambda>kv. fst kv \<notin>
                   set (map (\<lambda>i. String (name (currentData matches st ! i))) ixs)) kvs)) st of
        Inl e \<Rightarrow> Inl e
      | Inr st' \<Rightarrow> Inr (st'\<lparr>selectedIndices := [], focusedIndex := Some (Min (set ixs))\<rparr>))"
proof -
  have v: "validIndices (currentData matches st) (chosenIndices t st) \<noteq> []"
    using assms(2,3) by simp
  show ?thesis
    unfolding handleDelete_unfold[OF v] assms(1,2)
    by (simp add: math_min_Min[OF assms(3)] delete_object_keys comp_def cong: sum.case_cong)
qed

lemma currentData_updateDataAtCurrentPath:
  "updateDataAtCurrentPath d st = Inr st' \<Longrightarrow>
   path st' = path st \<and> searchTerm st' = searchTerm st"
  by (auto simp: updateDataAtCurrentPath_def split: option.splits if_splits)

lemma clamp_after_delete:
  assumes "handleDelete matches t st = Inr st'"
    and "validIndices (currentData matches st) (chosenIndices t st) = ixs" and "ixs \<noteq> []"
  shows "selectedIndices (clampEffect matches st') = [] \<and>
     focusedIndex (clampEffect matches st') =
       (if length (currentData matches st') = 0 then None
        else Some (min (Min (set ixs)) (length (currentData matches st') - 1)))"
proof -
  have v: "validIndices (currentData matches st) (chosenIndices t st) \<noteq> []"
    using assms(2,3) by simp
  from assms(1) obtain s where
    st': "st' = s\<lparr>selectedIndices := [], focusedIndex := Some (Min (set ixs))\<rparr>"
    unfolding handleDelete_unfold[OF v] assms(2)
    by (auto simp: math_min_Min[OF assms(3)] split: sum.splits)
  show ?thesis
    unfolding st' by (auto simp: clampEffect_def Let_def currentData_def currentLevelData_def)
qed

lemma handleDelete_nothing:
  "validIndices (currentData matches st) (chosenIndices t st) = [] \<Longrightarrow>
   handleDelete matches t st = Inr st"
  by (simp add: handleDelete_def Let_def)

lemma grid3_eq:
  "grid3 = \<lparr>meta = Some (''data.json'', 48),
      hist = \<lparr>past = [], present = doc3, future = []\<rparr>, error = None,
      path = [], searchTerm = [], focusedIndex = None, selectedIndices = [],
      anchorIndexRef = None, draggedIndex = None, dropTargetIndex = None,
      dragDataRef = None, dropTargetRef = None, console = []\<rparr>"
  by (simp add: grid3_def mountGrid_def processJsonData_def dataToDisplay_def doc3_def
      initialApp_def emptyHistory_def)

lemma handleDataUpdate_first:
  "handleDataUpdate d \<lparr>past = [], present = JArr ys, future = []\<rparr> =
     \<lparr>past = [JArr ys], present = d, future = []\<rparr>"
  by (simp add: handleDataUpdate_def MAX_HISTORY_def)

text \<open>
  C6. A delete whose chosen indices include at least one card of the current (possibly
  filtered) view hands to the update: for an array, the array without the elements at
  the true indices of the chosen cards (their names; the chosen view indices themselves
  when no filter is active), which the source removes one by one from the highest index
  down; for an object, the object without the entries whose keys are the names of the
  chosen cards. The selection is then empty and the focus is the smallest chosen index;
  once the clamp effect has run on the new list, the focus is that index clamped to the
  last card, or cleared when no card is left. With no selection and no focus, or with
  no chosen index that has a card, the delete changes nothing. At the root, deleting
  index 1 from \<open>[a,b,c]\<close> yields \<open>[a,c]\<close> and deleting \<open>{0,2}\<close> yields \<open>[b]\<close>.
\<close>

theorem delete_semantics:
  "(distinct (selectedIndices st) \<and> currentLevelData st = JArr xs \<and>
    validIndices (currentData matches st) (chosenIndices t st) = ixs \<and> ixs \<noteq> [] \<longrightarrow>
      handleDelete matches t st =
        (case updateDataAtCurrentPath
            (JArr (nths xs (- set (name_numbers (map ((!) (currentData matches st)) ixs))))) st of
           Inl e \<Rightarrow> Inl e
         | Inr st' \<Rightarrow>
             Inr (st'\<lparr>selectedIndices := [], focusedIndex := Some (Min (set ixs))\<rparr>)) \<and>
      (searchTerm st = [] \<longrightarrow> name_numbers (map ((!) (currentData matches st)) ixs) = ixs)) \<and>
   (currentLevelData st = JObj kvs \<and>
    validIndices (currentData matches st) (chosenIndices t st) = ixs \<and> ixs \<noteq> [] \<longrightarrow>
      handleDelete matches t st =
        (case updateDataAtCurrentPath
            (JObj (filter (\<lambda>kv. fst kv \<notin>
                      set (map (\<lambda>i. String (name (currentData matches st ! i))) ixs)) kvs)) st of
           Inl e \<Rightarrow> Inl e
         | Inr st' \<Rightarrow>
             Inr (st'\<lparr>selectedIndices := [], focusedIndex := Some (Min (set ixs))\<rparr>))) \<and>
   (handleDelete matches t st = Inr st' \<and>
    validIndices (currentData matches st) (chosenIndices t st) = ixs \<and> ixs \<noteq> [] \<longrightarrow>
      selectedIndices (clampEffect matches st') = [] \<and>
      focusedIndex (clampEffect matches st') =
        (if length (currentData matches st') = 0 then None
         else Some (min (Min (set ixs)) (length (currentData matches st') - 1)))) \<and>
   (selectedIndices st = [] \<and> focusedIndex st = None \<longrightarrow>
      handleDelete matches None st = Inr st) \<and>
   (validIndices (currentData matches st) (chosenIndices t st) = [] \<longrightarrow>
      handleDelete matches t st = Inr st) \<and>
   (path st = [] \<and> searchTerm st = [] \<and> present (hist st) = JArr [a, b, c] \<and>
    selectedIndices st = [] \<and> focusedIndex st = Some 1 \<longrightarrow>
      handleDelete matches None st =
        Inr (st\<lparr>hist := handleDataUpdate (JArr [a, c]) (hist st), selectedIndices := [],
               focusedIndex := Some 1\<rparr>)) \<and>
   (path st = [] \<and> searchTerm st = [] \<and> present (hist st) = JArr [a, b, c] \<and>
    selectedIndices st = [0, 2] \<longrightarrow>
      handleDelete matches None st =
        Inr (st\<lparr>hist := handleDataUpdate (JArr [b]) (hist st), selectedIndices := [],
               focusedIndex := Some 0\<rparr>))"
proof (intro conjI impI)
  assume h: "distinct (selectedIndices st) \<and> currentLevelData st = JArr xs \<and>
    validIndices (currentData matches st) (chosenIndices t st) = ixs \<and> ixs \<noteq> []"
  then show "handleDelete matches t st =
        (case updateDataAtCurrentPath
            (JArr (nths xs (- set (name_numbers (map ((!) (currentData matches st)) ixs))))) st of
           Inl e \<Rightarrow> Inl e
         | Inr st' \<Rightarrow>
             Inr (st'\<lparr>selectedIndices := [], focusedIndex := Some (Min (set ixs))\<rparr>))"
    using handleDelete_array[of st xs matches t ixs] by blast
  assume s: "searchTerm st = []"
  have "\<forall>i\<in>set ixs. i < length xs"
    using h s by (auto simp: validIndices_def currentData_def filteredData_def length_allItems_array)
  from name_numbers_unfiltered[OF this] h s
  show "name_numbers (map ((!) (currentData matches st)) ixs) = ixs"
    by (simp add: currentData_def filteredData_def)
next
  assume "currentLevelData st = JObj kvs \<and>
    validIndices (currentData matches st) (chosenIndices t st) = ixs \<and> ixs \<noteq> []"
  then show "handleDelete matches t st =
        (case updateDataAtCurrentPath
            (JObj (filter (\<lambda>kv. fst kv \<notin>
                      set (map (\<lambda>i. String (name (currentData matches st ! i))) ixs)) kvs)) st of
           Inl e \<Rightarrow> Inl e
         | Inr st' \<Rightarrow>
             Inr (st'\<lparr>selectedIndices := [], focusedIndex := Some (Min (set ixs))\<rparr>))"
    using handleDelete_object[of st kvs matches t ixs] by blast
next
  assume h: "handleDelete matches t st = Inr st' \<and>
    validIndices (currentData matches st) (chosenIndices t st) = ixs \<and> ixs \<noteq> []"
  then have c: "selectedIndices (clampEffect matches st') = [] \<and>
      focusedIndex (clampEffect matches st') =
        (if length (currentData matches st') = 0 then None
         else Some (min (Min (set ixs)) (length (currentData matches st') - 1)))"
    using clamp_after_delete[of matches t st st' ixs] by blast
  from c show "selectedIndices (clampEffect matches st') = []" by blast
  from c show "focusedIndex (clampEffect matches st') =
        (if length (currentData matches st') = 0 then None
         else Some (min (Min (set ixs)) (length (currentData matches st') - 1)))" by blast
next
  assume "selectedIndices st = [] \<and> focusedIndex st = None"
  then show "handleDelete matches None st = Inr st"
    by (simp add: handleDelete_def chosenIndices_def)
next
  assume "validIndices (currentData matches st) (chosenIndices t st) = []"
  then show "handleDelete matches t st = Inr st" by (rule handleDelete_nothing)
next
  assume "path st = [] \<and> searchTerm st = [] \<and> present (hist st) = JArr [a, b, c] \<and>
    selectedIndices st = [] \<and> focusedIndex st = Some 1"
  then show "handleDelete matches None st =
        Inr (st\<lparr>hist := handleDataUpdate (JArr [a, c]) (hist st), selectedIndices := [],
               focusedIndex := Some 1\<rparr>)"
    by (simp add: handleDelete_def Let_def chosenIndices_def validIndices_def currentData_def
        filteredData_def currentLevelData_root allItems_def math_min_def splice_remove_def
        updateDataAtCurrentPath_root)
next
  assume "path st = [] \<and> searchTerm st = [] \<and> present (hist st) = JArr [a, b, c] \<and>
    selectedIndices st = [0, 2]"
  then show "handleDelete matches None st =
        Inr (st\<lparr>hist := handleDataUpdate (JArr [b]) (hist st), selectedIndices := [],
               focusedIndex := Some 0\<rparr>)"
    by (simp add: handleDelete_def Let_def chosenIndices_def validIndices_def currentData_def
        filteredData_def currentLevelData_root allItems_def math_min_def splice_remove_def
        updateDataAtCurrentPath_root)
qed


theorem delete_semantics_witness:
  "handleDelete anyItem None (grid3\<lparr>focusedIndex := Some 1\<rparr>) =
     Inr (grid3\<lparr>hist := \<lparr>past = [doc3],
                          present = JArr [JObj [(''id'', JNum 1)], JObj [(''id'', JNum 3)]],
                          future = []\<rparr>,
               selectedIndices := [], focusedIndex := Some 1\<rparr>) \<and>
   focusedIndex (clampEffect anyItem
     (grid3\<lparr>hist := \<lparr>past = [doc3],
                      present = JArr [JObj [(''id'', JNum 1)], JObj [(''id'', JNum 3)]],
                      future = []\<rparr>,
           selectedIndices := [], focusedIndex := Some 1\<rparr>)) = Some 1 \<and>
   handleDelete anyItem None (handleCardClick True False 2 (handleCardClick False False 0 grid3)) =
     Inr (grid3\<lparr>hist := \<lparr>past = [doc3], present = JArr [JObj [(''id'', JNum 2)]],
                          future = []\<rparr>,
               selectedIndices := [], focusedIndex := Some 0, anchorIndexRef := Some 2\<rparr>) \<and>
   handleDelete anyItem None (gridObj\<lparr>focusedIndex := Some 0\<rparr>) =
     Inr (gridObj\<lparr>hist := \<lparr>past = [doc1], present = JArr [JObj [(''Title'', JStr ''A'')]],
                            future = []\<rparr>,
                 selectedIndices := [], focusedIndex := Some 0\<rparr>) \<and>
   handleDelete anyItem None grid3 = Inr grid3 \<and>
   handleDelete anyItem None (grid3\<lparr>focusedIndex := Some 7\<rparr>) =
     Inr (grid3\<lparr>focusedIndex := Some 7\<rparr>)"
proof -
  let ?o1 = "JObj [(''id'', JNum 1)]" and ?o2 = "JObj [(''id'', JNum 2)]"
  let ?o3 = "JObj [(''id'', JNum 3)]"
  let ?kvs = "[(''id'', JNum 1), (''Title'', JStr ''A'')]"
  let ?s1 = "grid3\<lparr>focusedIndex := Some 1\<rparr>"
  let ?s2 = "handleCardClick True False 2 (handleCardClick False False 0 grid3)"
  let ?s3 = "gridObj\<lparr>focusedIndex := Some 0\<rparr>"
  let ?s5 = "grid3\<lparr>focusedIndex := Some 7\<rparr>"
  let ?r1 = "grid3\<lparr>hist := \<lparr>past = [doc3], present = JArr [?o1, ?o3], future = []\<rparr>,
               selectedIndices := [], focusedIndex := Some 1\<rparr>"
  note T1 = delete_semantics [where st = ?s1 and matches = anyItem and t = None
      and xs = "[?o1, ?o2, ?o3]" and ixs = "[1]" and st' = ?r1
      and a = ?o1 and b = ?o2 and c = ?o3]
  note T2 = delete_semantics [where st = ?s2 and matches = anyItem
      and a = ?o1 and b = ?o2 and c = ?o3]
  note T3 = delete_semantics [where st = ?s3 and matches = anyItem and t = None
      and kvs = ?kvs and ixs = "[0]"]
  note T4 = delete_semantics [where st = grid3 and matches = anyItem]
  note T5 = delete_semantics [where st = ?s5 and matches = anyItem and t = None]
  have items3: "allItems doc3 =
      [\<lparr>name = SIdx 0, ival = ?o1\<rparr>, \<lparr>name = SIdx 1, ival = ?o2\<rparr>,
       \<lparr>name = SIdx 2, ival = ?o3\<rparr>]"
    by (simp add: allItems_def doc3_def)
  have cd1: "currentData anyItem ?s1 = allItems doc3" "currentLevelData ?s1 = JArr [?o1, ?o2, ?o3]"
    "validIndices (currentData anyItem ?s1) (chosenIndices None ?s1) = [1]"
    by (simp_all add: currentData_def filteredData_def currentLevelData_def grid3_eq
        validIndices_def chosenIndices_def items3) (simp_all add: doc3_def)
  have 1: "handleDelete anyItem None ?s1 = Inr ?r1"
    using T1[THEN conjunct1] cd1
    by (simp add: items3 nths_Cons updateDataAtCurrentPath_root grid3_eq handleDataUpdate_first doc3_def)
  have 2: "focusedIndex (clampEffect anyItem ?r1) = Some 1"
    using T1[THEN conjunct2, THEN conjunct2, THEN conjunct1] 1 cd1(3)
    by (simp add: currentData_def filteredData_def currentLevelData_def grid3_eq allItems_def)
  have 3: "handleDelete anyItem None ?s2 =
     Inr (grid3\<lparr>hist := \<lparr>past = [doc3], present = JArr [?o2], future = []\<rparr>,
               selectedIndices := [], focusedIndex := Some 0, anchorIndexRef := Some 2\<rparr>)"
    using T2[THEN conjunct2, THEN conjunct2, THEN conjunct2, THEN conjunct2, THEN conjunct2,
        THEN conjunct2]
    by (simp add: handleCardClick_def grid3_eq doc3_def handleDataUpdate_first)
  have cd3: "currentLevelData ?s3 = JObj ?kvs"
    "currentData anyItem ?s3 = [\<lparr>name = SKey ''id'', ival = JNum 1\<rparr>,
       \<lparr>name = SKey ''Title'', ival = JStr ''A''\<rparr>]"
    "validIndices (currentData anyItem ?s3) (chosenIndices None ?s3) = [0]"
    by (simp_all add: currentData_def filteredData_def currentLevelData_def gridObj_def grid1_eq
        validIndices_def chosenIndices_def allItems_def doc1_def arr_get_def)
  have 4: "handleDelete anyItem None ?s3 =
     Inr (gridObj\<lparr>hist := \<lparr>past = [doc1], present = JArr [JObj [(''Title'', JStr ''A'')]],
                            future = []\<rparr>,
                 selectedIndices := [], focusedIndex := Some 0\<rparr>)"
    using T3[THEN conjunct2, THEN conjunct1] cd3
    by (simp add: updateDataAtCurrentPath_def gridObj_def grid1_eq doc1_def arr_get_def
        arr_set_def handleDataUpdate_first)
  have 5: "handleDelete anyItem None grid3 = Inr grid3"
    using T4[THEN conjunct2, THEN conjunct2, THEN conjunct2, THEN conjunct1]
    by (simp add: grid3_eq)
  have 6: "handleDelete anyItem None ?s5 = Inr ?s5"
    using T5[THEN conjunct2, THEN conjunct2, THEN conjunct2, THEN conjunct2, THEN conjunct1]
    by (simp add: currentData_def filteredData_def currentLevelData_def grid3_eq
        validIndices_def chosenIndices_def allItems_def doc3_def)
  from 1 2 3 4 5 6 show ?thesis by blast
qed

subsection \<open>The selection clamp\<close>

lemma currentData_staleSelection:
  "currentData anyItem staleSelection =
     [\<lparr>name = SIdx 0, ival = JObj [(''id'', JNum 1)]\<rparr>,
      \<lparr>name = SIdx 1, ival = JObj [(''id'', JNum 2)]\<rparr>]"
  by (simp add: staleSelection_def grid3_eq currentData_def currentLevelData_def
      filteredData_def allItems_def)

text \<open>
  C4 does not hold of the code. The clamp effect removes the out-of-range indices of the
  selection only when the focus itself is out of range. On \<^verbatim>\<open>[a,b,c]\<close>: click card 2,
  press Delete, undo, Ctrl-click card 2, Ctrl-click card 0, redo. The list has shrunk to
  two cards, the focus (0) is in range, and the selection still holds index 2; the
  effect leaves that state as it is, and the keyboard move of the selected block then
  throws a \<^verbatim>\<open>TypeError\<close>.
\<close>

theorem selection_clamp_misses_stale_index:
  "grid_run anyItem grid3
     [CardClick False False 2, DeleteKey, UndoKey, CardClick True False 2,
      CardClick True False 0, RedoKey] = Inr staleSelection \<and>
   length (currentData anyItem staleSelection) = 2 \<and>
   selectedIndices staleSelection = [2, 0] \<and>
   clampEffect anyItem staleSelection = staleSelection \<and>
   grid_step anyItem staleSelection MoveForward = Inl TypeError"
proof -
  have e1: "grid_step anyItem grid3 (CardClick False False 2) =
      Inr (grid3\<lparr>selectedIndices := [2], focusedIndex := Some 2, anchorIndexRef := Some 2\<rparr>)"
      (is "_ = Inr ?s1")
    by (simp add: grid_step_def handleCardClick_def clampEffect_def currentData_def
        currentLevelData_def filteredData_def allItems_def grid3_eq doc3_def)
  have e2: "grid_step anyItem ?s1 DeleteKey =
      Inr (grid3\<lparr>hist := \<lparr>past = [doc3],
                     present = JArr [JObj [(''id'', JNum 1)], JObj [(''id'', JNum 2)]],
                     future = []\<rparr>,
             selectedIndices := [], focusedIndex := Some 1, anchorIndexRef := Some 2\<rparr>)"
      (is "_ = Inr ?s2")
    by (simp add: grid_step_def handleDelete_def chosenIndices_def validIndices_def Let_def
        clampEffect_def currentData_def currentLevelData_def filteredData_def allItems_def
        grid3_eq doc3_def math_min_def splice_remove_def updateDataAtCurrentPath_def
        handleDataUpdate_first)
  have e3: "grid_step anyItem ?s2 UndoKey =
      Inr (grid3\<lparr>hist := \<lparr>past = [], present = doc3,
                     future = [JArr [JObj [(''id'', JNum 1)], JObj [(''id'', JNum 2)]]]\<rparr>,
             selectedIndices := [], focusedIndex := Some 1, anchorIndexRef := Some 2\<rparr>)"
      (is "_ = Inr ?s3")
    by (simp add: grid_step_def undo_def Let_def
        clampEffect_def currentData_def currentLevelData_def filteredData_def allItems_def
        grid3_eq doc3_def)
  have e4: "grid_step anyItem ?s3 (CardClick True False 2) =
      Inr (grid3\<lparr>hist := \<lparr>past = [], present = doc3,
                     future = [JArr [JObj [(''id'', JNum 1)], JObj [(''id'', JNum 2)]]]\<rparr>,
             selectedIndices := [2], focusedIndex := Some 2, anchorIndexRef := Some 2\<rparr>)"
      (is "_ = Inr ?s4")
    by (simp add: grid_step_def handleCardClick_def clampEffect_def currentData_def
        currentLevelData_def filteredData_def allItems_def grid3_eq doc3_def)
  have e5: "grid_step anyItem ?s4 (CardClick True False 0) =
      Inr (grid3\<lparr>hist := \<lparr>past = [], present = doc3,
                     future = [JArr [JObj [(''id'', JNum 1)], JObj [(''id'', JNum 2)]]]\<rparr>,
             selectedIndices := [2, 0], focusedIndex := Some 0, anchorIndexRef := Some 0\<rparr>)"
      (is "_ = Inr ?s5")
    by (simp add: grid_step_def handleCardClick_def clampEffect_def currentData_def
        currentLevelData_def filteredData_def allItems_def grid3_eq doc3_def)
  have e6: "grid_step anyItem ?s5 RedoKey = Inr staleSelection"
    by (simp add: grid_step_def redo_def Let_def staleSelection_def
        clampEffect_def currentData_def currentLevelData_def filteredData_def allItems_def
        grid3_eq doc3_def)
  have run: "grid_run anyItem grid3
     [CardClick False False 2, DeleteKey, UndoKey, CardClick True False 2,
      CardClick True False 0, RedoKey] = Inr staleSelection"
    by (simp only: grid_run.simps e1 e2 e3 e4 e5 e6 sum.case)
  have clamp: "clampEffect anyItem staleSelection = staleSelection"
    by (simp add: clampEffect_def currentData_staleSelection) (simp add: staleSelection_def)
  have cld: "currentLevelData staleSelection = JArr [JObj [(''id'', JNum 1)], JObj [(''id'', JNum 2)]]"
    "searchTerm staleSelection = []" "focusedIndex staleSelection = Some 0"
    "selectedIndices staleSelection = [2, 0]"
    by (simp_all add: staleSelection_def grid3_eq currentLevelData_def)
  have move: "grid_step anyItem staleSelection MoveForward = Inl TypeError"
    by (simp add: grid_step_def keyboardMove_def handleMoveItems_def moveItemsDirect_def Let_def
        currentData_staleSelection cld allItems_def item_at_def filter_not_in_def
        splice_insert_def math_max_def)
  show ?thesis
    using run clamp move by (simp add: currentData_staleSelection) (simp add: staleSelection_def)
qed

subsection \<open>Path resolver\<close>

lemma replace_entry_same: "map_of kvs k = Some v \<Longrightarrow> replace_entry kvs k v = kvs"
  by (induction kvs) (auto split: if_splits)

lemma proto_setter_own: "map_of kvs k = Some v \<Longrightarrow> \<not> proto_setter kvs k"
  by (auto simp: proto_setter_def weak_map_of_SomeI dest: map_of_SomeD intro: rev_image_eqI)

lemma obj_set_same: "map_of kvs k = Some v \<Longrightarrow> obj_set kvs k v = kvs"
proof -
  assume m: "map_of kvs k = Some v"
  then have "k \<in> set (map fst kvs)"
    by (metis map_of_eq_None_iff option.distinct(1) set_map)
  with m show ?thesis by (simp add: obj_set_def replace_entry_same)
qed

lemma legalPath_undefined: "legalPath JUndefined P \<Longrightarrow> P = []"
  by (cases P) simp_all

lemma setDeep_getPath:
  "legalPath D P \<Longrightarrow> setDeep D P (getPath D P) = Some D"
proof (induction D P rule: legalPath.induct)
  case (1 v)
  show ?case by simp
next
  case (2 xs i rest)
  then have i: "i < length xs" and l: "legalPath (xs ! i) rest" by simp_all
  show ?case
  proof (cases "xs ! i = JUndefined")
    case True
    with l have "rest = []" by (simp add: legalPath_undefined)
    with True i list_update_id[of xs i] show ?thesis by (simp add: arr_get_def arr_set_def)
  next
    case False
    with 2 i show ?thesis by (simp add: arr_get_def arr_set_def)
  qed
next
  case (3 kvs k rest)
  then obtain v0 where m: "map_of kvs k = Some v0" and l: "legalPath v0 rest"
    by (auto split: option.splits)
  show ?case
  proof (cases "v0 = JUndefined")
    case True
    with l have "rest = []" by (simp add: legalPath_undefined)
    with True m show ?thesis by (simp add: obj_set_same proto_setter_own)
  next
    case False
    with 3 m show ?thesis by (simp add: obj_set_same proto_setter_own)
  qed
qed simp_all


subsection \<open>Structural sharing\<close>

lemma prefix_nth:
  assumes "take (length h) h1 = h"
  shows "length h \<le> length h1" and "a < length h \<Longrightarrow> h1 ! a = h ! a"
proof -
  have "length (take (length h) h1) = length h" using assms by simp
  then show l: "length h \<le> length h1" by simp
  show "h1 ! a = h ! a" if "a < length h"
    using that assms by (metis nth_take)
qed

lemma legalPathR_child:
  assumes "legalPathR h (RRef a) (s # rest)"
  shows "a < length h" and "legalPathR h (cell_get (h ! a) s) rest"
    and "cell_get (h ! a) s = getR h (RRef a) s"
    and "(\<exists>xs i. h ! a = CArr xs \<and> s = SIdx i \<and> i < length xs) \<or>
         (\<exists>kvs k v0. h ! a = CObj kvs \<and> s = SKey k \<and> map_of kvs k = Some v0)"
  using assms
  by (auto simp: cell_at_def arr_getR_def split: if_splits option.splits cell.splits seg.splits)

lemma legalPathR_undefined: "legalPathR h RUndefined P \<Longrightarrow> P = []"
  by (cases P) simp_all

lemma legalPathR_ext:
  assumes "take (length h) h1 = h"
  shows "legalPathR h v P \<Longrightarrow> legalPathR h1 v P"
proof (induction P arbitrary: v)
  case Nil
  show ?case by simp
next
  case (Cons s rest)
  then obtain a where v: "v = RRef a" by (cases v) simp_all
  note c = legalPathR_child[OF Cons.prems[unfolded v]]
  have a1: "a < length h1" "h1 ! a = h ! a"
    using prefix_nth[OF assms] c(1) by auto
  from c(4) show ?case
  proof (elim disjE exE conjE)
    fix xs i assume "h ! a = CArr xs" "s = SIdx i" "i < length xs"
    with Cons.IH[OF c(2)] a1 show ?thesis
      by (simp add: v cell_at_def arr_getR_def)
  next
    fix kvs k v0 assume "h ! a = CObj kvs" "s = SKey k" "map_of kvs k = Some v0"
    with Cons.IH[OF c(2)] a1 show ?thesis
      by (simp add: v cell_at_def)
  qed
qed

lemma shares_transfer:
  assumes pre: "take (length h) h1 = h" and len: "length h' = length h3"
    and new: "\<And>b. length h1 \<le> b \<Longrightarrow> b < length h3 \<Longrightarrow> h' ! b = h3 ! b"
  shows "sharesOffPath h1 h3 v r P \<Longrightarrow> legalPathR h v P \<Longrightarrow> sharesOffPath h h' v r P"
proof (induction P arbitrary: v r)
  case Nil
  show ?case by simp
next
  case (Cons s rest)
  from Cons.prems(2) obtain a where v: "v = RRef a" by (cases v) simp_all
  from Cons.prems(1) v obtain b where r: "r = RRef b" by (cases r) simp_all
  note c = legalPathR_child[OF Cons.prems(2)[unfolded v]]
  have old: "h1 ! a = h ! a" using prefix_nth[OF pre] c(1) by simp
  from Cons.prems(1) have b: "length h1 \<le> b" "b < length h3"
    and sb: "same_but (h1 ! a) (h3 ! b) s"
    and sh: "sharesOffPath h1 h3 (cell_get (h1 ! a) s) (cell_get (h3 ! b) s) rest"
    by (simp_all add: v r)
  have nb: "h' ! b = h3 ! b" using new b by simp
  have "sharesOffPath h h' (cell_get (h ! a) s) (cell_get (h' ! b) s) rest"
    using Cons.IH[OF sh[unfolded old] c(2)] nb by simp
  then show ?case
    using c(1) b sb prefix_nth(1)[OF pre] len by (simp add: v r old nb)
qed


lemma replace_entry_keys: "map fst (replace_entry kvs k r) = map fst kvs"
  by (induction kvs) auto

lemma replace_entry_others:
  "j < length kvs \<Longrightarrow> fst (kvs ! j) \<noteq> k \<Longrightarrow> replace_entry kvs k r ! j = kvs ! j"
  by (induction kvs arbitrary: j) (auto simp: nth_Cons split: nat.splits)

lemma replace_entry_lookup:
  "k \<in> set (map fst kvs) \<Longrightarrow> map_of (replace_entry kvs k r) k = Some r"
  by (induction kvs) auto

lemma same_but_replace_entry:
  "same_but (CObj kvs) (CObj (replace_entry kvs k r)) (SKey k)"
proof -
  have "fst (kvs ! j) = k \<or> replace_entry kvs k r ! j = kvs ! j" if "j < length kvs" for j
    using replace_entry_others[OF that] by blast
  then show ?thesis
    by (simp add: replace_entry_keys list_all_iff)
qed

lemma assign_cell_legal:
  assumes "(\<exists>xs i. c = CArr xs \<and> s = SIdx i \<and> i < length xs) \<or>
           (\<exists>kvs k v0. c = CObj kvs \<and> s = SKey k \<and> map_of kvs k = Some v0)"
  shows "\<exists>c'. assign_cell c s r = Some c' \<and> same_but c c' s \<and> cell_get c' s = r"
  using assms
proof (elim disjE exE conjE)
  fix xs i assume "c = CArr xs" "s = SIdx i" "i < length xs"
  then show ?thesis
    by (simp add: arr_set_def arr_getR_def list_all_iff nth_list_update)
next
  fix kvs k v0 assume c: "c = CObj kvs" "s = SKey k" and m: "map_of kvs k = Some v0"
  from m have k: "k \<in> set (map fst kvs)"
    by (metis map_of_eq_None_iff option.distinct(1) set_map)
  then have o: "obj_set kvs k r = replace_entry kvs k r" by (simp add: obj_set_def)
  have "assign_cell c s r = Some (CObj (replace_entry kvs k r))"
    by (simp add: c o proto_setter_own[OF m])
  moreover have "same_but c (CObj (replace_entry kvs k r)) s"
    unfolding c by (rule same_but_replace_entry)
  moreover have "cell_get (CObj (replace_entry kvs k r)) s = r"
    using replace_entry_lookup[OF k, of r] by (simp add: c)
  ultimately show ?thesis by blast
qed

lemma setDeepR_step:
  "setDeepR h (RRef a) (s # rest) v =
     (case setDeepR
             (if getR h (RRef a) s \<noteq> RUndefined then h @ [cloneR h (RRef a)]
              else h @ [cloneR h (RRef a)] @
                   [case rest of SIdx n # _ \<Rightarrow> CArr [] | _ \<Rightarrow> CObj []])
             (if getR h (RRef a) s \<noteq> RUndefined then getR h (RRef a) s
              else RRef (Suc (length h))) rest v of
        None \<Rightarrow> None
      | Some (h3, r) \<Rightarrow>
          (case assign_cell (h3 ! length h) s r of
             None \<Rightarrow> None
           | Some c \<Rightarrow> Some (h3[length h := c], RRef (length h))))"
  by (simp add: Let_def)

lemma setDeepR_legal:
  "legalPathR h root P \<Longrightarrow>
   \<exists>h' root'. setDeepR h root P v = Some (h', root') \<and> take (length h) h' = h \<and>
     sharesOffPath h h' root root' P"
proof (induction P arbitrary: h root)
  case Nil
  show ?case by simp
next
  case (Cons s rest)
  then obtain a where root: "root = RRef a" by (cases root) simp_all
  note c = legalPathR_child[OF Cons.prems[unfolded root]]
  let ?n = "length h"
  let ?nx = "getR h (RRef a) s"
  have clone: "cloneR h (RRef a) = h ! a" using c(1) by (simp add: cell_at_def)
  have nx: "cell_get (h ! a) s = ?nx" by (rule c(3))
  define h2 where "h2 = (if ?nx \<noteq> RUndefined then h @ [h ! a]
      else h @ [h ! a] @ [case rest of SIdx n # _ \<Rightarrow> CArr [] | _ \<Rightarrow> CObj []])"
  define nextObj where "nextObj = (if ?nx \<noteq> RUndefined then ?nx else RRef (Suc ?n))"
  have pre2: "take ?n h2 = h" and at2: "h2 ! ?n = h ! a" and len2: "?n < length h2"
    by (simp_all add: h2_def nth_append)
  have "\<exists>h3 r. setDeepR h2 nextObj rest v = Some (h3, r) \<and> take (length h2) h3 = h2 \<and>
      (?nx \<noteq> RUndefined \<longrightarrow> sharesOffPath h2 h3 ?nx r rest)"
  proof (cases "?nx = RUndefined")
    case True
    with c(2) nx have "rest = []" by (simp add: legalPathR_undefined)
    with True show ?thesis by simp
  next
    case False
    have "legalPathR h2 ?nx rest"
      using legalPathR_ext[OF pre2] c(2) nx by simp
    from Cons.IH[OF this, of ] False show ?thesis
      by (simp add: nextObj_def)
  qed
  then obtain h3 r where run: "setDeepR h2 nextObj rest v = Some (h3, r)"
    and pre3: "take (length h2) h3 = h2"
    and sh3: "?nx \<noteq> RUndefined \<Longrightarrow> sharesOffPath h2 h3 ?nx r rest"
    by blast
  have len3: "?n < length h3" and at3: "h3 ! ?n = h ! a"
    using prefix_nth[OF pre3] len2 at2 by auto
  from assign_cell_legal[OF c(4), of r] obtain c' where
    asg: "assign_cell (h ! a) s r = Some c'" and sb: "same_but (h ! a) c' s"
    and got: "cell_get c' s = r"
    by blast
  let ?h' = "h3[?n := c']"
  have res: "setDeepR h root (s # rest) v = Some (?h', RRef ?n)"
    unfolding root setDeepR_step clone
    using run asg at3 by (simp add: h2_def nextObj_def)
  have pre: "take ?n ?h' = h"
  proof -
    have "take ?n h3 = take ?n (take (length h2) h3)"
      using len2 by (simp add: min_def)
    then show ?thesis using pre3 pre2 by simp
  qed
  have rest_shares: "sharesOffPath h ?h' ?nx r rest"
  proof (cases "?nx = RUndefined")
    case True
    with c(2) nx have "rest = []" by (simp add: legalPathR_undefined)
    then show ?thesis by simp
  next
    case False
    show ?thesis
    proof (rule shares_transfer[OF pre2 _ _ sh3[OF False]])
      show "length ?h' = length h3" by simp
      show "?h' ! b = h3 ! b" if "length h2 \<le> b" "b < length h3" for b
        using that len2 by simp
      show "legalPathR h ?nx rest" using c(2) nx by simp
    qed
  qed
  have "sharesOffPath h ?h' (RRef a) (RRef ?n) (s # rest)"
    using c(1) len3 sb got rest_shares nx by simp
  with res pre show ?case
    unfolding root by blast
qed

inductive_simps reprF_RRef_JArr: "reprF F h (RRef a) (JArr js)"
inductive_simps reprF_RRef_JObj: "reprF F h (RRef a) (JObj jkvs)"
inductive_simps reprF_RNum: "reprF F h (RNum n) j"
inductive_simps reprF_RStr: "reprF F h (RStr s) j"

inductive_cases reprF_arrE: "reprF F h x (JArr js)"
inductive_cases reprF_objE: "reprF F h x (JObj jkvs)"
inductive_cases reprF_undefE: "reprF F h RUndefined j"
inductive_cases reprF_undefE2: "reprF F h x JUndefined"

lemma reprF_cong:
  assumes "reprF F h x j" and "F \<subseteq> F'" and "\<And>a. a \<in> F \<Longrightarrow> a < length h \<Longrightarrow> a < length h' \<and> h' ! a = h ! a"
  shows "reprF F' h' x j"
  using assms(1)
proof (induction rule: reprF.induct)
  case (r_arr a rs js)
  have "list_all2 (reprF F' h') rs js"
    using r_arr.IH by (rule list_all2_mono) simp
  with r_arr.hyps assms(2) assms(3)[of a] show ?case
    by (auto intro: reprF.r_arr)
next
  case (r_obj a rkvs jkvs)
  have "list_all2 (\<lambda>rkv jkv. fst rkv = fst jkv \<and> reprF F' h' (snd rkv) (snd jkv)) rkvs jkvs"
    using r_obj.IH by (rule list_all2_mono) simp
  with r_obj.hyps assms(2) assms(3)[of a] show ?case
    by (auto intro: reprF.r_obj)
qed (auto intro: reprF.intros)


lemma setDeepR_shape:
  assumes "setDeepR h obj (s # rest) v = Some (h', root')"
  shows "\<exists>h2 nextObj h3 r c. take (length h) h2 = h \<and> length h < length h2 \<and>
           setDeepR h2 nextObj rest v = Some (h3, r) \<and> h' = h3[length h := c] \<and>
           root' = RRef (length h)"
proof -
  let ?h1 = "h @ [cloneR h obj]"
  let ?syn = "case rest of SIdx n # _ \<Rightarrow> CArr [] | _ \<Rightarrow> CObj []"
  let ?c = "truthyR obj \<and> getR h obj s \<noteq> RUndefined"
  let ?h2 = "if ?c then ?h1 else ?h1 @ [?syn]"
  let ?nx = "if ?c then getR h obj s else RRef (length ?h1)"
  have "setDeepR h obj (s # rest) v =
      (case setDeepR ?h2 ?nx rest v of
         None \<Rightarrow> None
       | Some (h3, r) \<Rightarrow>
           (case assign_cell (h3 ! length h) s r of
              None \<Rightarrow> None
            | Some c \<Rightarrow> Some (h3[length h := c], RRef (length h)))) \<or>
      setDeepR h obj (s # rest) v = None"
    by (cases obj; cases ?c) (auto simp: Let_def split: list.splits)
  with assms obtain h3 r c where "setDeepR ?h2 ?nx rest v = Some (h3, r)"
    "h' = h3[length h := c]" "root' = RRef (length h)"
    by (auto split: option.splits prod.splits)
  moreover have "take (length h) ?h2 = h" "length h < length ?h2" by simp_all
  ultimately show ?thesis by blast
qed

lemma setDeepR_prefix:
  "setDeepR h obj P v = Some (h', root') \<Longrightarrow> take (length h) h' = h"
proof (induction P arbitrary: h obj h' root')
  case Nil
  then show ?case by simp
next
  case (Cons s rest)
  from setDeepR_shape[OF Cons.prems] obtain h2 nextObj h3 r c where
    p2: "take (length h) h2 = h" and l2: "length h < length h2"
    and run: "setDeepR h2 nextObj rest v = Some (h3, r)" and h': "h' = h3[length h := c]"
    by blast
  have "take (length h) h3 = take (length h) (take (length h2) h3)"
    using l2 by (simp add: min_def)
  with Cons.IH[OF run] p2 show ?case by (simp add: h')
qed


lemma reprF_undefined_iff: "reprF F h x j \<Longrightarrow> x = RUndefined \<longleftrightarrow> j = JUndefined"
  by (cases rule: reprF.cases) auto

lemma entries_lookup:
  "list_all2 (\<lambda>rkv jkv. fst rkv = fst jkv \<and> R (snd rkv) (snd jkv)) rkvs jkvs \<Longrightarrow>
   map_of jkvs k = Some v0 \<Longrightarrow> \<exists>r0. map_of rkvs k = Some r0 \<and> R r0 v0"
  by (induction rule: list_all2_induct) (auto split: if_splits)

lemma entries_replace:
  "list_all2 (\<lambda>rkv jkv. fst rkv = fst jkv \<and> R (snd rkv) (snd jkv)) rkvs jkvs \<Longrightarrow> R r j \<Longrightarrow>
   list_all2 (\<lambda>rkv jkv. fst rkv = fst jkv \<and> R (snd rkv) (snd jkv))
     (replace_entry rkvs k r) (replace_entry jkvs k j)"
  by (induction rule: list_all2_induct) auto

lemma entries_keys:
  "list_all2 (\<lambda>rkv jkv. fst rkv = fst jkv \<and> R (snd rkv) (snd jkv)) rkvs jkvs \<Longrightarrow>
   map fst rkvs = map fst jkvs"
  by (induction rule: list_all2_induct) auto

lemma map_of_key: "map_of kvs k = Some v \<Longrightarrow> k \<in> set (map fst kvs)"
  by (metis map_of_eq_None_iff option.distinct(1) set_map)

lemma setDeep_step_array:
  "i < length xs \<Longrightarrow>
   setDeep (JArr xs) (SIdx i # rest) v =
     (case setDeep (if xs ! i \<noteq> JUndefined then xs ! i
                    else (case rest of SIdx n # _ \<Rightarrow> JArr [] | _ \<Rightarrow> JObj [])) rest v of
        None \<Rightarrow> None
      | Some r \<Rightarrow> Some (JArr (xs[i := r])))"
  by (simp add: arr_get_def arr_set_def Let_def cong: option.case_cong)

lemma setDeep_step_object:
  "map_of kvs k = Some v0 \<Longrightarrow>
   setDeep (JObj kvs) (SKey k # rest) v =
     (case setDeep (if v0 \<noteq> JUndefined then v0
                    else (case rest of SIdx n # _ \<Rightarrow> JArr [] | _ \<Rightarrow> JObj [])) rest v of
        None \<Rightarrow> None
      | Some r \<Rightarrow> Some (JObj (obj_set kvs k r)))"
  by (simp add: Let_def proto_setter_own cong: option.case_cong)

lemma setDeepR_refines:
  assumes "legalPath D P" and "reprF F h root D" and "reprF F h v jv" and "F \<subseteq> {..<length h}"
  shows "\<exists>h' root' D'. setDeepR h root P v = Some (h', root') \<and> setDeep D P jv = Some D' \<and>
           reprF (F \<union> {length h..<length h'}) h' root' D'"
  using assms
proof (induction D P arbitrary: h root rule: legalPath.induct)
  case (1 D)
  have "reprF (F \<union> {length h..<length h}) h v jv"
    using "1.prems"(3) by (rule reprF_cong) auto
  then show ?case by simp
next
  case (2 xs i rest)
  from "2.prems"(1) have i: "i < length xs" and l: "legalPath (xs ! i) rest" by simp_all
  from "2.prems"(2) obtain a rs where root: "root = RRef a" and aF: "a \<in> F"
    and al: "a < length h" and cell: "h ! a = CArr rs" and all: "list_all2 (reprF F h) rs xs"
    by (rule reprF_arrE)
  let ?n = "length h"
  have len: "length rs = length xs" using all by (rule list_all2_lengthD)
  have ri: "reprF F h (rs ! i) (xs ! i)" using all i by (simp add: list_all2_nthD2)
  have g: "getR h (RRef a) (SIdx i) = rs ! i" "cloneR h (RRef a) = CArr rs"
    using al cell i len by (simp_all add: cell_at_def arr_getR_def)
  define h2 where "h2 = (if rs ! i \<noteq> RUndefined then h @ [CArr rs]
      else h @ [CArr rs] @ [case rest of SIdx n # _ \<Rightarrow> CArr [] | _ \<Rightarrow> CObj []])"
  define nextObj where "nextObj = (if rs ! i \<noteq> RUndefined then rs ! i else RRef (Suc ?n))"
  define nextJ where "nextJ = (if xs ! i \<noteq> JUndefined then xs ! i
      else (case rest of SIdx n # _ \<Rightarrow> JArr [] | _ \<Rightarrow> JObj []))"
  have old2: "a' < ?n \<Longrightarrow> h2 ! a' = h ! a'" for a'
    by (simp add: h2_def nth_append)
  have at2: "h2 ! ?n = CArr rs" "Suc ?n \<le> length h2" by (simp_all add: h2_def nth_append)
  have "\<exists>h3 r3 d'. setDeepR h2 nextObj rest v = Some (h3, r3) \<and> setDeep nextJ rest jv = Some d' \<and>
      reprF (F \<union> {Suc ?n..<length h3}) h3 r3 d'"
  proof (cases "xs ! i = JUndefined")
    case True
    with l have rest: "rest = []" by (simp add: legalPath_undefined)
    have "reprF (F \<union> {Suc ?n..<length h2}) h2 v jv"
    by (rule reprF_cong[OF "2.prems"(3)]) (use "2.prems"(4) old2 at2(2) in auto)
    then show ?thesis by (simp add: rest)
  next
    case False
    then have ru: "rs ! i \<noteq> RUndefined" using reprF_undefined_iff[OF ri] by simp
    have h2: "h2 = h @ [CArr rs]" "nextObj = rs ! i" "nextJ = xs ! i"
      using False ru by (simp_all add: h2_def nextObj_def nextJ_def)
    have 1: "reprF F h2 (rs ! i) (xs ! i)"
    by (rule reprF_cong[OF ri]) (use "2.prems"(4) old2 at2(2) in auto)
    have 2: "reprF F h2 v jv"
    by (rule reprF_cong[OF "2.prems"(3)]) (use "2.prems"(4) old2 at2(2) in auto)
    have 3: "F \<subseteq> {..<length h2}" using "2.prems"(4) at2(2) by auto
    from "2.IH"[OF l 1 2 3] show ?thesis by (simp add: h2)
  qed
  then obtain h3 r3 d' where run: "setDeepR h2 nextObj rest v = Some (h3, r3)"
    and runJ: "setDeep nextJ rest jv = Some d'"
    and r3: "reprF (F \<union> {Suc ?n..<length h3}) h3 r3 d'"
    by blast
  note p3 = prefix_nth[OF setDeepR_prefix[OF run]]
  have at3: "h3 ! ?n = CArr rs" "?n < length h3" using p3 at2 by auto
  have old3: "a' < ?n \<Longrightarrow> h3 ! a' = h ! a'" for a'
    using p3(2)[of a'] old2[of a'] at2(2) by simp
  let ?h' = "h3[?n := CArr (rs[i := r3])]"
  have res: "setDeepR h root (SIdx i # rest) v = Some (?h', RRef ?n)"
    unfolding root setDeepR_step g
    using run at3 i len by (simp add: h2_def nextObj_def arr_set_def)
  have resJ: "setDeep (JArr xs) (SIdx i # rest) jv = Some (JArr (xs[i := d']))"
    unfolding setDeep_step_array[OF i] nextJ_def[symmetric] runJ by simp
  let ?F' = "F \<union> {?n..<length ?h'}"
  have "list_all2 (reprF ?F' ?h') rs xs"
    using all
  proof (rule list_all2_mono)
    fix x j assume x: "reprF F h x j"
    show "reprF ?F' ?h' x j"
      by (rule reprF_cong[OF x]) (use "2.prems"(4) old3 at3(2) in auto)
  qed
  moreover have "reprF ?F' ?h' r3 d'"
    by (rule reprF_cong[OF r3]) (use "2.prems"(4) in auto)
  ultimately have "list_all2 (reprF ?F' ?h') (rs[i := r3]) (xs[i := d'])"
    by (rule list_all2_update_cong)
  then have "reprF ?F' ?h' (RRef ?n) (JArr (xs[i := d']))"
    using at3(2) by (intro reprF.r_arr[where rs = "rs[i := r3]"]) simp_all
  with res resJ show ?case by blast
next
  case (3 kvs k rest)
  from "3.prems"(1) obtain v0 where m: "map_of kvs k = Some v0" and l: "legalPath v0 rest"
    by (auto split: option.splits)
  from "3.prems"(2) obtain a rkvs where root: "root = RRef a" and aF: "a \<in> F"
    and al: "a < length h" and cell: "h ! a = CObj rkvs"
    and all: "list_all2 (\<lambda>rkv jkv. fst rkv = fst jkv \<and> reprF F h (snd rkv) (snd jkv)) rkvs kvs"
    by (rule reprF_objE)
  from entries_lookup[OF all m] obtain r0 where mr: "map_of rkvs k = Some r0"
    and ri: "reprF F h r0 v0" by blast
  let ?n = "length h"
  have g: "getR h (RRef a) (SKey k) = r0" "cloneR h (RRef a) = CObj rkvs"
    using al cell mr by (simp_all add: cell_at_def)
  define h2 where "h2 = (if r0 \<noteq> RUndefined then h @ [CObj rkvs]
      else h @ [CObj rkvs] @ [case rest of SIdx n # _ \<Rightarrow> CArr [] | _ \<Rightarrow> CObj []])"
  define nextObj where "nextObj = (if r0 \<noteq> RUndefined then r0 else RRef (Suc ?n))"
  define nextJ where "nextJ = (if v0 \<noteq> JUndefined then v0
      else (case rest of SIdx n # _ \<Rightarrow> JArr [] | _ \<Rightarrow> JObj []))"
  have old2: "a' < ?n \<Longrightarrow> h2 ! a' = h ! a'" for a'
    by (simp add: h2_def nth_append)
  have at2: "h2 ! ?n = CObj rkvs" "Suc ?n \<le> length h2" by (simp_all add: h2_def nth_append)
  have "\<exists>h3 r3 d'. setDeepR h2 nextObj rest v = Some (h3, r3) \<and> setDeep nextJ rest jv = Some d' \<and>
      reprF (F \<union> {Suc ?n..<length h3}) h3 r3 d'"
  proof (cases "v0 = JUndefined")
    case True
    with l have rest: "rest = []" by (simp add: legalPath_undefined)
    have "reprF (F \<union> {Suc ?n..<length h2}) h2 v jv"
    by (rule reprF_cong[OF "3.prems"(3)]) (use "3.prems"(4) old2 at2(2) in auto)
    then show ?thesis by (simp add: rest)
  next
    case False
    then have ru: "r0 \<noteq> RUndefined" using reprF_undefined_iff[OF ri] by simp
    have h2: "h2 = h @ [CObj rkvs]" "nextObj = r0" "nextJ = v0"
      using False ru by (simp_all add: h2_def nextObj_def nextJ_def)
    have 1: "reprF F h2 r0 v0"
    by (rule reprF_cong[OF ri]) (use "3.prems"(4) old2 at2(2) in auto)
    have 2: "reprF F h2 v jv"
    by (rule reprF_cong[OF "3.prems"(3)]) (use "3.prems"(4) old2 at2(2) in auto)
    have 3: "F \<subseteq> {..<length h2}" using "3.prems"(4) at2(2) by auto
    from "3.IH"[OF m l 1 2 3] show ?thesis by (simp add: h2)
  qed
  then obtain h3 r3 d' where run: "setDeepR h2 nextObj rest v = Some (h3, r3)"
    and runJ: "setDeep nextJ rest jv = Some d'"
    and r3: "reprF (F \<union> {Suc ?n..<length h3}) h3 r3 d'"
    by blast
  note p3 = prefix_nth[OF setDeepR_prefix[OF run]]
  have at3: "h3 ! ?n = CObj rkvs" "?n < length h3" using p3 at2 by auto
  have old3: "a' < ?n \<Longrightarrow> h3 ! a' = h ! a'" for a'
    using p3(2)[of a'] old2[of a'] at2(2) by simp
  have os: "obj_set rkvs k r3 = replace_entry rkvs k r3" "obj_set kvs k d' = replace_entry kvs k d'"
    using map_of_key[OF m] map_of_key[OF mr] by (simp_all add: obj_set_def)
  let ?h' = "h3[?n := CObj (replace_entry rkvs k r3)]"
  have res: "setDeepR h root (SKey k # rest) v = Some (?h', RRef ?n)"
    unfolding root setDeepR_step g
    using run at3 os by (simp add: h2_def nextObj_def proto_setter_own[OF mr])
  have resJ: "setDeep (JObj kvs) (SKey k # rest) jv = Some (JObj (replace_entry kvs k d'))"
    unfolding setDeep_step_object[OF m] nextJ_def[symmetric] runJ by (simp add: os)
  let ?F' = "F \<union> {?n..<length ?h'}"
  have "list_all2 (\<lambda>rkv jkv. fst rkv = fst jkv \<and> reprF ?F' ?h' (snd rkv) (snd jkv)) rkvs kvs"
    using all
  proof (rule list_all2_mono)
    fix x j assume x: "fst x = fst j \<and> reprF F h (snd x) (snd j)"
    then have "reprF F h (snd x) (snd j)" by simp
    then have "reprF ?F' ?h' (snd x) (snd j)"
      by (rule reprF_cong) (use "3.prems"(4) old3 at3(2) in auto)
    with x show "fst x = fst j \<and> reprF ?F' ?h' (snd x) (snd j)" by simp
  qed
  moreover have "reprF ?F' ?h' r3 d'"
    by (rule reprF_cong[OF r3]) (use "3.prems"(4) in auto)
  ultimately have "list_all2 (\<lambda>rkv jkv. fst rkv = fst jkv \<and> reprF ?F' ?h' (snd rkv) (snd jkv))
      (replace_entry rkvs k r3) (replace_entry kvs k d')"
    by (rule entries_replace)
  then have "reprF ?F' ?h' (RRef ?n) (JObj (replace_entry kvs k d'))"
    using at3(2) by (intro reprF.r_obj[where rkvs = "replace_entry rkvs k r3"]) simp_all
  with res resJ show ?case by blast
qed simp_all


lemma legalPathR_reprF:
  "legalPath D P \<Longrightarrow> reprF F h root D \<Longrightarrow> legalPathR h root P"
proof (induction D P arbitrary: root rule: legalPath.induct)
  case (1 D)
  show ?case by simp
next
  case (2 xs i rest)
  from "2.prems"(1) have i: "i < length xs" and l: "legalPath (xs ! i) rest" by simp_all
  from "2.prems"(2) obtain a rs where root: "root = RRef a"
    and al: "a < length h" and cell: "h ! a = CArr rs" and all: "list_all2 (reprF F h) rs xs"
    by (rule reprF_arrE)
  have "reprF F h (rs ! i) (xs ! i)" using all i by (simp add: list_all2_nthD2)
  from "2.IH"[OF l this] al cell i list_all2_lengthD[OF all] show ?case
    by (simp add: root cell_at_def)
next
  case (3 kvs k rest)
  from "3.prems"(1) obtain v0 where m: "map_of kvs k = Some v0" and l: "legalPath v0 rest"
    by (auto split: option.splits)
  from "3.prems"(2) obtain a rkvs where root: "root = RRef a"
    and al: "a < length h" and cell: "h ! a = CObj rkvs"
    and all: "list_all2 (\<lambda>rkv jkv. fst rkv = fst jkv \<and> reprF F h (snd rkv) (snd jkv)) rkvs kvs"
    by (rule reprF_objE)
  from entries_lookup[OF all m] obtain r0 where mr: "map_of rkvs k = Some r0"
    and ri: "reprF F h r0 v0" by blast
  from "3.IH"[OF m l ri] al cell mr show ?case
    by (simp add: root cell_at_def)
qed simp_all

lemma getPathR_reprF:
  "legalPath D P \<Longrightarrow> reprF F h root D \<Longrightarrow> reprF F h (getPathR h root P) (getPath D P)"
proof (induction D P arbitrary: root rule: legalPath.induct)
  case (1 D)
  then show ?case by simp
next
  case (2 xs i rest)
  from "2.prems"(1) have i: "i < length xs" and l: "legalPath (xs ! i) rest" by simp_all
  from "2.prems"(2) obtain a rs where root: "root = RRef a"
    and al: "a < length h" and cell: "h ! a = CArr rs" and all: "list_all2 (reprF F h) rs xs"
    by (rule reprF_arrE)
  have "reprF F h (rs ! i) (xs ! i)" using all i by (simp add: list_all2_nthD2)
  from "2.IH"[OF l this] al cell i list_all2_lengthD[OF all] show ?case
    by (simp add: root cell_at_def arr_getR_def arr_get_def)
next
  case (3 kvs k rest)
  from "3.prems"(1) obtain v0 where m: "map_of kvs k = Some v0" and l: "legalPath v0 rest"
    by (auto split: option.splits)
  from "3.prems"(2) obtain a rkvs where root: "root = RRef a"
    and al: "a < length h" and cell: "h ! a = CObj rkvs"
    and all: "list_all2 (\<lambda>rkv jkv. fst rkv = fst jkv \<and> reprF F h (snd rkv) (snd jkv)) rkvs kvs"
    by (rule reprF_objE)
  from entries_lookup[OF all m] obtain r0 where mr: "map_of rkvs k = Some r0"
    and ri: "reprF F h r0 v0" by blast
  from "3.IH"[OF m l ri] al cell mr m show ?case
    by (simp add: root cell_at_def)
qed simp_all

lemma setDeepR_represents:
  assumes "represents h root D" and "represents h v jv" and "legalPath D P"
  shows "\<exists>h' root' D'. setDeepR h root P v = Some (h', root') \<and> setDeep D P jv = Some D' \<and>
           represents h' root' D' \<and> take (length h) h' = h \<and> sharesOffPath h h' root root' P"
proof -
  let ?F = "{..<length h}"
  from setDeepR_refines[OF assms(3) assms(1)[unfolded represents_def]
      assms(2)[unfolded represents_def] subset_refl]
  obtain h' root' D' where run: "setDeepR h root P v = Some (h', root')"
    and runJ: "setDeep D P jv = Some D'"
    and r: "reprF (?F \<union> {length h..<length h'}) h' root' D'"
    by blast
  have pre: "take (length h) h' = h" using run by (rule setDeepR_prefix)
  have "reprF {..<length h'} h' root' D'"
    by (rule reprF_cong[OF r]) (use prefix_nth(1)[OF pre] in auto)
  then have rep: "represents h' root' D'" by (simp add: represents_def)
  have "legalPathR h root P"
    using assms(3) assms(1)[unfolded represents_def] by (rule legalPathR_reprF)
  from setDeepR_legal[OF this, of v] run have "sharesOffPath h h' root root' P" by auto
  with run runJ rep pre show ?thesis by blast
qed

text \<open>
  C7. For every Document \<open>D\<close> and every path \<open>P\<close> of legal drills, setting at \<open>P\<close> the value
  read at \<open>P\<close> gives a value equal to \<open>D\<close>. On the store, for every value \<open>v\<close>, the update
  along a legal path returns a new root, leaves every cell that existed before as it was,
  and at each level of the path the new cell has, off the path, the very entries of the
  old cell: the same primitive values and the same addresses, so every subtree not on
  \<open>P\<close> is shared, not copied. The two readings agree: when the store holds \<open>D\<close> at
  \<open>root\<close>, what is read at \<open>P\<close> in the store is what is read at \<open>P\<close> in \<open>D\<close>, writing it
  back gives a new root that holds \<open>D\<close> again with the same sharing, and writing any
  \<open>v\<close> that holds \<open>jv\<close> gives a root that holds the result of the update of \<open>D\<close> with \<open>jv\<close>.
\<close>

theorem set_get_roundtrip_sharing:
  "(legalPath D P \<longrightarrow> setDeep D P (getPath D P) = Some D) \<and>
   (legalPathR h root P \<longrightarrow>
      (\<exists>h' root'. setDeepR h root P v = Some (h', root') \<and> take (length h) h' = h \<and>
         sharesOffPath h h' root root' P)) \<and>
   (represents h root D \<and> legalPath D P \<longrightarrow>
      represents h (getPathR h root P) (getPath D P) \<and>
      (\<exists>h' root'. setDeepR h root P (getPathR h root P) = Some (h', root') \<and>
         represents h' root' D \<and> take (length h) h' = h \<and>
         sharesOffPath h h' root root' P)) \<and>
   (represents h root D \<and> represents h v jv \<and> legalPath D P \<longrightarrow>
      (\<exists>h' root' D'. setDeepR h root P v = Some (h', root') \<and> setDeep D P jv = Some D' \<and>
         represents h' root' D'))"
proof (intro conjI impI)
  assume "legalPath D P"
  then show "setDeep D P (getPath D P) = Some D" by (rule setDeep_getPath)
next
  assume "legalPathR h root P"
  then show "\<exists>h' root'. setDeepR h root P v = Some (h', root') \<and> take (length h) h' = h \<and>
         sharesOffPath h h' root root' P"
    by (rule setDeepR_legal)
next
  assume a: "represents h root D \<and> legalPath D P"
  then show g: "represents h (getPathR h root P) (getPath D P)"
    unfolding represents_def using getPathR_reprF by blast
  from setDeepR_represents[OF _ g, of root D P] a setDeep_getPath[of D P]
  show "\<exists>h' root'. setDeepR h root P (getPathR h root P) = Some (h', root') \<and>
         represents h' root' D \<and> take (length h) h' = h \<and>
         sharesOffPath h h' root root' P"
    by auto
next
  assume "represents h root D \<and> represents h v jv \<and> legalPath D P"
  with setDeepR_represents[of h root D v jv P]
  show "\<exists>h' root' D'. setDeepR h root P v = Some (h', root') \<and> setDeep D P jv = Some D' \<and>
         represents h' root' D'"
    by blast
qed

theorem set_get_roundtrip_sharing_witness:
  "represents store0 (RRef 0) docS \<and>
   legalPath docS [SIdx 0, SKey ''tags''] \<and>
   getPath docS [SIdx 0, SKey ''tags''] = JArr [JStr ''x''] \<and>
   setDeep docS [SIdx 0, SKey ''tags''] (JArr [JStr ''x'']) = Some docS \<and>
   getPathR store0 (RRef 0) [SIdx 0, SKey ''tags''] = RRef 2 \<and>
   setDeepR store0 (RRef 0) [SIdx 0, SKey ''tags''] (RRef 2) =
     Some (store0 @ [CArr [RRef 4], CObj [(''id'', RNum 1), (''tags'', RRef 2)]], RRef 3) \<and>
   represents (store0 @ [CArr [RRef 4], CObj [(''id'', RNum 1), (''tags'', RRef 2)]])
     (RRef 3) docS \<and>
   legalPathR store0 (RRef 0) [SIdx 0, SKey ''id''] \<and>
   setDeepR store0 (RRef 0) [SIdx 0, SKey ''id''] (RNum 7) =
     Some (store0 @ [CArr [RRef 4], CObj [(''id'', RNum 7), (''tags'', RRef 2)]], RRef 3) \<and>
   take (length store0)
     (store0 @ [CArr [RRef 4], CObj [(''id'', RNum 7), (''tags'', RRef 2)]]) = store0 \<and>
   sharesOffPath store0 (store0 @ [CArr [RRef 4], CObj [(''id'', RNum 7), (''tags'', RRef 2)]])
     (RRef 0) (RRef 3) [SIdx 0, SKey ''id''] \<and>
   setDeep docS [SIdx 0, SKey ''id''] (JNum 7) =
     Some (JArr [JObj [(''id'', JNum 7), (''tags'', JArr [JStr ''x''])]]) \<and>
   represents (store0 @ [CArr [RRef 4], CObj [(''id'', RNum 7), (''tags'', RRef 2)]]) (RRef 3)
     (JArr [JObj [(''id'', JNum 7), (''tags'', JArr [JStr ''x''])]])"
proof -
  let ?P = "[SIdx 0, SKey ''tags'']" and ?Q = "[SIdx 0, SKey ''id'']"
  let ?hP = "store0 @ [CArr [RRef 4], CObj [(''id'', RNum 1), (''tags'', RRef 2)]]"
  let ?hQ = "store0 @ [CArr [RRef 4], CObj [(''id'', RNum 7), (''tags'', RRef 2)]]"
  let ?DQ = "JArr [JObj [(''id'', JNum 7), (''tags'', JArr [JStr ''x''])]]"
  note T = set_get_roundtrip_sharing [where D = docS and P = ?P and h = store0
      and root = "RRef 0"]
  note U = set_get_roundtrip_sharing [where D = docS and P = ?Q and h = store0
      and root = "RRef 0" and v = "RNum 7" and jv = "JNum 7"]
  have rep: "represents store0 (RRef 0) docS"
    by (simp add: represents_def store0_def docS_def reprF_RRef_JArr reprF_RRef_JObj
        reprF_RNum reprF_RStr)
  have rep7: "represents store0 (RNum 7) (JNum 7)"
    by (simp add: represents_def reprF_RNum)
  have lP: "legalPath docS ?P" and lQ: "legalPath docS ?Q" by (simp_all add: docS_def)
  have g: "getPath docS ?P = JArr [JStr ''x'']" by (simp add: docS_def arr_get_def)
  have gR: "getPathR store0 (RRef 0) ?P = RRef 2"
    by (simp add: store0_def cell_at_def arr_getR_def)
  have 1: "setDeep docS ?P (JArr [JStr ''x'']) = Some docS"
    using T[THEN conjunct1] lP unfolding g by blast
  have evP: "setDeepR store0 (RRef 0) ?P (RRef 2) = Some (?hP, RRef 3)"
    by (simp add: store0_def cell_at_def arr_getR_def arr_set_def obj_set_def proto_setter_def
        Let_def)
  have evQ: "setDeepR store0 (RRef 0) ?Q (RNum 7) = Some (?hQ, RRef 3)"
    by (simp add: store0_def cell_at_def arr_getR_def arr_set_def obj_set_def proto_setter_def
        Let_def)
  have evJ: "setDeep docS ?Q (JNum 7) = Some ?DQ"
    by (simp add: docS_def arr_get_def arr_set_def obj_set_def proto_setter_def Let_def)
  from T[THEN conjunct2, THEN conjunct2, THEN conjunct1] rep lP
  obtain h' root' where
    a: "setDeepR store0 (RRef 0) ?P (getPathR store0 (RRef 0) ?P) = Some (h', root')" and
    b: "represents h' root' docS"
    by blast
  from a have "h' = ?hP \<and> root' = RRef 3"
    unfolding gR evP by (simp only: option.inject prod.inject)
  with b have 2: "represents ?hP (RRef 3) docS" by (simp only:)
  have lr: "legalPathR store0 (RRef 0) ?Q" by (simp add: store0_def cell_at_def)
  from U[THEN conjunct2, THEN conjunct1] lr obtain h' root' where
    "setDeepR store0 (RRef 0) ?Q (RNum 7) = Some (h', root')"
    "take (length store0) h' = store0" "sharesOffPath store0 h' (RRef 0) root' ?Q"
    by blast
  with evQ have 3: "take (length store0) ?hQ = store0"
    "sharesOffPath store0 ?hQ (RRef 0) (RRef 3) ?Q"
    by simp_all
  from U[THEN conjunct2, THEN conjunct2, THEN conjunct2] rep rep7 lQ
  obtain h' root' D' where
    c: "setDeepR store0 (RRef 0) ?Q (RNum 7) = Some (h', root')" and
    d: "setDeep docS ?Q (JNum 7) = Some D'" and
    e: "represents h' root' D'"
    by blast
  from c d have "h' = ?hQ \<and> root' = RRef 3 \<and> D' = ?DQ"
    unfolding evQ evJ by (simp only: option.inject prod.inject)
  with e have 4: "represents ?hQ (RRef 3) ?DQ" by (simp only:)
  from rep lP g 1 gR evP 2 lr evQ 3 evJ 4 show ?thesis by blast
qed

end
